theory Spec2Isabelle
  imports Complex_Main
begin

section \<open>The bounded concurrency runner (parallelProcessor.ts)\<close>

text \<open>
  The class \<^verbatim>\<open>ParallelProcessor<T, R>\<close> has three private fields. The entries of
  \<^verbatim>\<open>queue\<close> are the deferred \<^verbatim>\<open>run\<close> closures; a closure is represented by the
  variables it captures, the index and the item of its task. The JavaScript number
  \<^verbatim>\<open>concurrency\<close> is modelled as an integer.
\<close>

type_synonym 't task = "nat \<times> 't"

record 't ParallelProcessor =
  concurrency :: int
  activeCount :: int
  queue :: "'t task list"

text \<open>\<^verbatim>\<open>constructor(concurrency: number = 4)\<close>: no validation, the value is stored as it is.\<close>

definition constructor :: "int option \<Rightarrow> 't ParallelProcessor" where
  "constructor c =
     \<lparr>concurrency = (case c of None \<Rightarrow> 4 | Some k \<Rightarrow> k), activeCount = 0, queue = []\<rparr>"

text \<open>A promise is pending, fulfilled with a value, or rejected with an error.\<close>

datatype ('a, 'e) promise = Pending | Fulfilled 'a | Rejected 'e

text \<open>
  An entry of the \<^verbatim>\<open>results\<close> array: \<^verbatim>\<open>{ item: T; result?: R; error?: Error }\<close>.
\<close>

record ('t, 'r, 'e) outcome =
  item :: 't
  result :: "'r option"
  error :: "'e option"

text \<open>
  The state of one call of \<^verbatim>\<open>process\<close>: the object \<^verbatim>\<open>this\<close>, the local array
  \<^verbatim>\<open>results\<close> (\<open>None\<close> is a hole of the JavaScript array), the promises returned by
  \<^verbatim>\<open>enqueue\<close> in the order of \<^verbatim>\<open>items.map\<close>, and the suspended asynchronous functions:
  \<open>awaiting\<close> holds the tasks whose \<^verbatim>\<open>fn\<close> is suspended at \<^verbatim>\<open>await processor(item)\<close>
  (the operation is in flight), \<open>finishing\<close> the indices of the tasks whose \<^verbatim>\<open>fn\<close> has
  returned while \<^verbatim>\<open>run\<close> is still suspended at \<^verbatim>\<open>await fn()\<close>. Two traces record
  observations only: \<open>started\<close> lists the indices in the order in which
  \<^verbatim>\<open>processor(item)\<close> was called, \<open>deferred\<close> in the order of \<^verbatim>\<open>this.queue.push(run)\<close>.
\<close>

record ('t, 'r, 'e) call =
  this :: "'t ParallelProcessor"
  results :: "('t, 'r, 'e) outcome option list"
  promises :: "(unit, 'e) promise list"
  awaiting :: "'t task list"
  finishing :: "nat list"
  started :: "nat list"
  deferred :: "nat list"

text \<open>
  \<^verbatim>\<open>results[index] = v\<close>: JavaScript extends the array when the index is past its end,
  leaving holes. Reading past the end gives \<^verbatim>\<open>undefined\<close>, like reading a hole.
\<close>

definition assign :: "nat \<Rightarrow> 'a \<Rightarrow> 'a option list \<Rightarrow> 'a option list" where
  "assign i v xs =
     (if i < length xs then xs[i := Some v]
      else xs @ replicate (i - length xs) None @ [Some v])"

definition js_nth :: "'a option list \<Rightarrow> nat \<Rightarrow> 'a option" where
  "js_nth xs i = (if i < length xs then xs ! i else None)"

text \<open>
  The closure \<^verbatim>\<open>run\<close> up to its first suspension: \<^verbatim>\<open>this.activeCount++\<close>, then
  \<^verbatim>\<open>fn()\<close> calls \<^verbatim>\<open>processor(item)\<close> and suspends at the \<^verbatim>\<open>await\<close>.
\<close>

definition run :: "'t task \<Rightarrow> ('t, 'r, 'e) call \<Rightarrow> ('t, 'r, 'e) call" where
  "run task s =
     s\<lparr>this := (this s)\<lparr>activeCount := activeCount (this s) + 1\<rparr>,
       awaiting := awaiting s @ [task],
       started := started s @ [fst task]\<rparr>"

text \<open>
  \<^verbatim>\<open>enqueue(fn)\<close>: the executor of the new promise runs synchronously; it calls
  \<^verbatim>\<open>run()\<close> if \<^verbatim>\<open>this.activeCount < this.concurrency\<close> and pushes \<^verbatim>\<open>run\<close> onto the
  queue otherwise.
\<close>

definition enqueue :: "'t task \<Rightarrow> ('t, 'r, 'e) call \<Rightarrow> ('t, 'r, 'e) call" where
  "enqueue task s =
     (let s' = s\<lparr>promises := promises s @ [Pending]\<rparr> in
      if activeCount (this s') < concurrency (this s') then run task s'
      else s'\<lparr>this := (this s')\<lparr>queue := queue (this s') @ [task]\<rparr>,
              deferred := deferred s' @ [fst task]\<rparr>)"

text \<open>
  The synchronous part of \<^verbatim>\<open>process\<close>: \<^verbatim>\<open>results = []\<close>, then
  \<^verbatim>\<open>items.map((item, index) => this.enqueue(...))\<close> from the first item to the last.
  \<open>submit j\<close> is the state after the first \<open>j\<close> items have been mapped.
\<close>

definition start_call :: "'t ParallelProcessor \<Rightarrow> ('t, 'r, 'e) call" where
  "start_call p =
     \<lparr>this = p, results = [], promises = [], awaiting = [], finishing = [],
      started = [], deferred = []\<rparr>"

definition submit :: "nat \<Rightarrow> 't ParallelProcessor \<Rightarrow> 't list \<Rightarrow> ('t, 'r, 'e) call" where
  "submit j p items = fold enqueue (take j (enumerate 0 items)) (start_call p)"

definition process :: "'t ParallelProcessor \<Rightarrow> 't list \<Rightarrow> ('t, 'r, 'e) call" where
  "process p items = fold enqueue (enumerate 0 items) (start_call p)"

text \<open>
  \<^verbatim>\<open>fn\<close> resumes when the promise of \<^verbatim>\<open>processor(item)\<close> settles: \<open>Inr r\<close> is a
  fulfilment with \<open>r\<close>, \<open>Inl e\<close> a rejection (or a synchronous throw) with \<open>e\<close>, which
  the \<^verbatim>\<open>catch\<close> clause handles. Either way \<^verbatim>\<open>fn\<close> returns normally.
\<close>

definition fn_resume ::
  "'t task \<Rightarrow> 'e + 'r \<Rightarrow> ('t, 'r, 'e) call \<Rightarrow> ('t, 'r, 'e) call" where
  "fn_resume task out s =
     (case out of
        Inr r \<Rightarrow>
          s\<lparr>results := assign (fst task) \<lparr>item = snd task, result = Some r, error = None\<rparr> (results s)\<rparr>
      | Inl e \<Rightarrow>
          s\<lparr>results := assign (fst task) \<lparr>item = snd task, result = None, error = Some e\<rparr> (results s)\<rparr>)"

text \<open>
  The \<^verbatim>\<open>finally\<close> block of \<^verbatim>\<open>run\<close>, in three statements: \<^verbatim>\<open>this.activeCount--\<close>;
  if the queue is not empty, \<^verbatim>\<open>shift\<close> its head and call it; \<^verbatim>\<open>resolve()\<close>.
\<close>

definition release :: "('t, 'r, 'e) call \<Rightarrow> ('t, 'r, 'e) call" where
  "release s = s\<lparr>this := (this s)\<lparr>activeCount := activeCount (this s) - 1\<rparr>\<rparr>"

definition shift_next :: "('t, 'r, 'e) call \<Rightarrow> ('t, 'r, 'e) call" where
  "shift_next s =
     (case queue (this s) of
        [] \<Rightarrow> s
      | nxt # rest \<Rightarrow> run nxt (s\<lparr>this := (this s)\<lparr>queue := rest\<rparr>\<rparr>))"

definition resolve :: "nat \<Rightarrow> ('t, 'r, 'e) call \<Rightarrow> ('t, 'r, 'e) call" where
  "resolve index s = s\<lparr>promises := (promises s)[index := Fulfilled ()]\<rparr>"

definition run_finally :: "nat \<Rightarrow> ('t, 'r, 'e) call \<Rightarrow> ('t, 'r, 'e) call" where
  "run_finally index s = resolve index (shift_next (release s))"

text \<open>
  After the synchronous part the call advances by the resumption of suspended functions,
  in whatever order the operations complete. \<open>Settle i out\<close>: the operation of task \<open>i\<close>
  settles with \<open>out\<close> and its \<^verbatim>\<open>fn\<close> runs to its end. \<open>Finally i\<close>: the \<^verbatim>\<open>run\<close> of task
  \<open>i\<close> resumes after \<^verbatim>\<open>await fn()\<close> and executes its \<^verbatim>\<open>finally\<close> block. A step that is
  not possible in a state gives \<open>None\<close>. Each step is a piece of synchronous code, which
  JavaScript runs without interleaving; the steps of different tasks may come in any
  order, which covers every order in which the event loop can resume them. The
  operations are taken not to touch the processor they run on, and the processor serves
  one call of \<^verbatim>\<open>process\<close> at a time.
\<close>

datatype ('r, 'e) event = Settle nat "'e + 'r" | Finally nat

fun step :: "('r, 'e) event \<Rightarrow> ('t, 'r, 'e) call \<Rightarrow> ('t, 'r, 'e) call option" where
  "step (Settle i out) s =
     (case List.find (\<lambda>t. fst t = i) (awaiting s) of
        None \<Rightarrow> None
      | Some task \<Rightarrow>
          Some (fn_resume task out
                 (s\<lparr>awaiting := remove1 task (awaiting s), finishing := finishing s @ [i]\<rparr>)))"
| "step (Finally i) s =
     (if i \<in> set (finishing s)
      then Some (run_finally i (s\<lparr>finishing := remove1 i (finishing s)\<rparr>))
      else None)"

fun exec :: "('r, 'e) event list \<Rightarrow> ('t, 'r, 'e) call \<Rightarrow> ('t, 'r, 'e) call option" where
  "exec [] s = Some s"
| "exec (ev # evs) s = (case step ev s of None \<Rightarrow> None | Some s' \<Rightarrow> exec evs s')"

text \<open>
  \<^verbatim>\<open>Promise.all\<close>: fulfilled once every promise is fulfilled, rejected when one is
  rejected (the model takes the first in list order), pending otherwise.
\<close>

fun Promise_all :: "('a, 'e) promise list \<Rightarrow> ('a list, 'e) promise" where
  "Promise_all [] = Fulfilled []"
| "Promise_all (p # ps) =
     (case p of
        Rejected e \<Rightarrow> Rejected e
      | Pending \<Rightarrow> (case Promise_all ps of Rejected e \<Rightarrow> Rejected e | _ \<Rightarrow> Pending)
      | Fulfilled v \<Rightarrow>
          (case Promise_all ps of
             Fulfilled vs \<Rightarrow> Fulfilled (v # vs)
           | Pending \<Rightarrow> Pending
           | Rejected e \<Rightarrow> Rejected e))"

text \<open>
  The promise returned by \<^verbatim>\<open>process\<close>: \<^verbatim>\<open>await Promise.all(...)\<close>, then
  \<^verbatim>\<open>return results\<close>.
\<close>

definition process_promise ::
  "('t, 'r, 'e) call \<Rightarrow> (('t, 'r, 'e) outcome option list, 'e) promise" where
  "process_promise s =
     (case Promise_all (promises s) of
        Pending \<Rightarrow> Pending
      | Rejected e \<Rightarrow> Rejected e
      | Fulfilled _ \<Rightarrow> Fulfilled (results s))"


text \<open>
  What a schedule says about task \<open>i\<close>: the value with which its operation settles (the
  first \<open>Settle i\<close> of the schedule), if it settles at all.
\<close>

fun outcome_of :: "('r, 'e) event list \<Rightarrow> nat \<Rightarrow> ('e + 'r) option" where
  "outcome_of [] i = None"
| "outcome_of (Settle j out # evs) i = (if j = i then Some out else outcome_of evs i)"
| "outcome_of (Finally j # evs) i = outcome_of evs i"

text \<open>The same schedule with another value for the operation of task \<open>j\<close>.\<close>

definition resettle :: "nat \<Rightarrow> 'e + 'r \<Rightarrow> ('r, 'e) event \<Rightarrow> ('r, 'e) event" where
  "resettle j out' ev =
     (case ev of
        Settle i out \<Rightarrow> if i = j then Settle i out' else Settle i out
      | Finally i \<Rightarrow> Finally i)"


section \<open>Values of the JavaScript runtime\<close>

text \<open>
  A thrown value: an \<^verbatim>\<open>Error\<close> object with its \<^verbatim>\<open>message\<close> and, when
  \<^verbatim>\<open>execFile\<close> made it, a \<^verbatim>\<open>stderr\<close> property; a \<^verbatim>\<open>ZodError\<close>; or a value that is no
  \<^verbatim>\<open>Error\<close>, given by its \<^verbatim>\<open>String(error)\<close>. A result of a fallible call is
  \<open>thrown + 'a\<close>, \<open>Inl\<close> being the throw or rejection.
\<close>

datatype thrown = ErrorObj string "string option" | ZodError string | NonError string

definition bind_result :: "'e + 'a \<Rightarrow> ('a \<Rightarrow> 'e + 'b) \<Rightarrow> 'e + 'b" where
  "bind_result r f = (case r of Inl e \<Rightarrow> Inl e | Inr v \<Rightarrow> f v)"

text \<open>A value returned by \<^verbatim>\<open>JSON.parse\<close>.\<close>

datatype json =
  JNull | JBool bool | JNumber real | JString string | JArray "json list"
  | JObject "(string \<times> json) list"

text \<open>
  \<^verbatim>\<open>v[0]\<close>: a \<^verbatim>\<open>TypeError\<close> on \<^verbatim>\<open>null\<close>, the first element of an array, the first
  character of a string, the property \<^verbatim>\<open>"0"\<close> of an object, \<^verbatim>\<open>undefined\<close> (\<open>None\<close>)
  when there is none and on a number or a boolean.
\<close>

definition index0 :: "json \<Rightarrow> thrown + json option" where
  "index0 v =
     (case v of
        JNull \<Rightarrow> Inl (ErrorObj ''Cannot read properties of null'' None)
      | JArray xs \<Rightarrow> Inr (case xs of [] \<Rightarrow> None | x # _ \<Rightarrow> Some x)
      | JString s \<Rightarrow> Inr (case s of [] \<Rightarrow> None | c # _ \<Rightarrow> Some (JString [c]))
      | JObject kvs \<Rightarrow> Inr (map_of kvs ''0'')
      | _ \<Rightarrow> Inr None)"

text \<open>Truthiness of a JSON value or \<^verbatim>\<open>undefined\<close>.\<close>

definition truthy_json :: "json option \<Rightarrow> bool" where
  "truthy_json v =
     (case v of
        None \<Rightarrow> False
      | Some JNull \<Rightarrow> False
      | Some (JBool b) \<Rightarrow> b
      | Some (JNumber x) \<Rightarrow> x \<noteq> 0
      | Some (JString s) \<Rightarrow> s \<noteq> []
      | Some _ \<Rightarrow> True)"

text \<open>Truthiness of \<^verbatim>\<open>string | undefined\<close>, and the operators \<^verbatim>\<open>||\<close> and \<^verbatim>\<open>??\<close> on it.\<close>

definition truthy :: "string option \<Rightarrow> bool" where
  "truthy v = (case v of None \<Rightarrow> False | Some s \<Rightarrow> s \<noteq> [])"

definition or_else :: "string option \<Rightarrow> string option \<Rightarrow> string option" where
  "or_else a b = (if truthy a then a else b)"

definition nullish :: "'a option \<Rightarrow> 'a option \<Rightarrow> 'a option" where
  "nullish a b = (case a of None \<Rightarrow> b | Some _ \<Rightarrow> a)"

text \<open>\<^verbatim>\<open>Array.prototype.join\<close> on an array of strings.\<close>

fun js_join :: "string \<Rightarrow> string list \<Rightarrow> string" where
  "js_join sep [] = []"
| "js_join sep [x] = x"
| "js_join sep (x # y # ys) = x @ sep @ js_join sep (y # ys)"

text \<open>A template literal without a tag: the string parts with the values between them.\<close>

definition interpolate :: "string list \<Rightarrow> string list \<Rightarrow> string" where
  "interpolate strings vals = concat (map (\<lambda>(s, v). s @ v) (zip strings (vals @ [[]])))"

definition dquote :: string where
  "dquote = [CHR 0x22]"

definition newline :: string where
  "newline = [CHR 0x0A]"


section \<open>The caption request builder (captionGenerator.ts)\<close>

text \<open>The optional argument \<^verbatim>\<open>existingMetadata?: { caption?: string; tags?: string[] }\<close>.\<close>

record ExistingMetadata =
  caption :: "string option"
  tags :: "string list option"

text \<open>
  The constructor: \<^verbatim>\<open>this.prompt = customPrompt || heredoc`...`\<close>. The built-in text is
  a parameter here.
\<close>

definition CaptionGenerator_prompt :: "string option \<Rightarrow> string \<Rightarrow> string" where
  "CaptionGenerator_prompt customPrompt builtin =
     (case or_else customPrompt (Some builtin) of Some p \<Rightarrow> p | None \<Rightarrow> builtin)"

text \<open>
  The template literal tagged with \<^verbatim>\<open>heredoc\<close> in \<^verbatim>\<open>generateCaption\<close>: its three string
  parts, between which \<^verbatim>\<open>this.prompt\<close> and \<^verbatim>\<open>contextParts.join("\n")\<close> are placed. The
  tag function of the package heredoc-ts is a parameter of the model; it receives the
  string parts and the values.
\<close>

definition template :: "string list" where
  "template =
     [newline @ ''            '',
      '' Use the image metadata to inform your caption.'' @ newline @ newline @
      ''            Image metadata: '' @ dquote @ dquote @ dquote @ newline @ ''            '',
      newline @ ''            '' @ dquote @ dquote @ dquote @ newline @ newline @
      ''            Try to include any names from the metadata in your caption, but be careful not to infer too much.'' @
      newline @ ''          '']"

definition contextParts :: "ExistingMetadata \<Rightarrow> string list" where
  "contextParts m =
     (case caption m of
        None \<Rightarrow> []
      | Some c \<Rightarrow> if c \<noteq> [] then [''EXIF Caption: '' @ dquote @ c @ dquote] else []) @
     (case tags m of
        None \<Rightarrow> []
      | Some ts \<Rightarrow> if 0 < length ts then [''EXIF Keywords: '' @ js_join '', '' ts] else [])"

text \<open>The text part of the request that \<^verbatim>\<open>generateCaption\<close> sends: \<^verbatim>\<open>enhancedPrompt\<close>.\<close>

definition enhancedPrompt ::
  "(string list \<Rightarrow> string list \<Rightarrow> string) \<Rightarrow> string \<Rightarrow> ExistingMetadata option \<Rightarrow> string" where
  "enhancedPrompt heredoc prompt existingMetadata =
     (case existingMetadata of
        None \<Rightarrow> prompt
      | Some m \<Rightarrow>
          if truthy (caption m) \<or> (case tags m of None \<Rightarrow> False | Some ts \<Rightarrow> 0 < length ts)
          then (let parts = contextParts m in
                if 0 < length parts then heredoc template [prompt, js_join newline parts]
                else prompt)
          else prompt)"


section \<open>The metadata adapter (imageProcessor.ts)\<close>

text \<open>
  \<^verbatim>\<open>ExifMetadata\<close>, the type inferred from \<^verbatim>\<open>ExifMetadataSchema\<close>: five optional fields.
  Keys outside the schema, which \<^verbatim>\<open>.loose()\<close> lets through, are not modelled, so the
  object \<^verbatim>\<open>{}\<close> is the record without any field.
\<close>

record ExifMetadata =
  Caption_Abstract :: "string option"
  Description :: "string option"
  ImageDescription :: "string option"
  Keywords :: "(string + string list) option"
  Subject :: "(string + string list) option"

definition empty_metadata :: ExifMetadata where
  "empty_metadata =
     \<lparr>Caption_Abstract = None, Description = None, ImageDescription = None,
      Keywords = None, Subject = None\<rparr>"

definition exiftool :: string where
  "exiftool = ''/opt/homebrew/bin/exiftool''"

text \<open>
  \<^verbatim>\<open>readImageMetadata\<close> of src/imageProcessor.ts. The subprocess call
  (\<^verbatim>\<open>execFileAsync\<close>, giving \<^verbatim>\<open>stdout\<close>), \<^verbatim>\<open>JSON.parse\<close> and
  \<^verbatim>\<open>ExifMetadataSchema.parse\<close> are parameters, each of which may throw. The whole body
  stands in \<^verbatim>\<open>try\<close>; the \<^verbatim>\<open>catch\<close> clause writes to the console, which is not
  modelled, and returns \<^verbatim>\<open>{}\<close>. In \<^verbatim>\<open>rawMetadata[0] ?? {}\<close> both \<^verbatim>\<open>undefined\<close>
  and \<^verbatim>\<open>null\<close> give way to \<^verbatim>\<open>{}\<close>.
\<close>

definition readImageMetadata ::
  "(string \<Rightarrow> string list \<Rightarrow> thrown + string) \<Rightarrow> (string \<Rightarrow> thrown + json) \<Rightarrow>
   (json \<Rightarrow> thrown + ExifMetadata) \<Rightarrow> string \<Rightarrow> thrown + ExifMetadata" where
  "readImageMetadata execFileAsync JSON_parse schema_parse imagePath =
     (case bind_result (execFileAsync exiftool [''-j'', imagePath]) (\<lambda>stdout.
           bind_result (JSON_parse stdout) (\<lambda>rawMetadata.
           bind_result (index0 rawMetadata) (\<lambda>first.
           schema_parse (case nullish first (Some (JObject [])) of
                           Some JNull \<Rightarrow> JObject []
                         | Some v \<Rightarrow> v
                         | None \<Rightarrow> JObject [])))) of
        Inr metadata \<Rightarrow> Inr metadata
      | Inl err \<Rightarrow> Inr empty_metadata)"

text \<open>
  The earlier \<^verbatim>\<open>readImageMetadata\<close> (the second file that defines it), which returns
  \<^verbatim>\<open>metadata[0] || {}\<close> unvalidated, as a JSON value.
\<close>

definition readImageMetadata_any ::
  "(string \<Rightarrow> string list \<Rightarrow> thrown + string) \<Rightarrow> (string \<Rightarrow> thrown + json) \<Rightarrow>
   string \<Rightarrow> thrown + json" where
  "readImageMetadata_any execFileAsync JSON_parse imagePath =
     (case bind_result (execFileAsync exiftool [''-j'', imagePath]) (\<lambda>stdout.
           bind_result (JSON_parse stdout) (\<lambda>metadata.
           bind_result (index0 metadata) (\<lambda>first.
           Inr (if truthy_json first then (case first of Some v \<Rightarrow> v | None \<Rightarrow> JObject [])
                else JObject [])))) of
        Inr metadata \<Rightarrow> Inr metadata
      | Inl err \<Rightarrow> Inr (JObject []))"

text \<open>
  \<^verbatim>\<open>writeCaption\<close>. \<^verbatim>\<open>path.join\<close>, \<^verbatim>\<open>path.dirname\<close> and \<^verbatim>\<open>path.basename\<close> of
  node:path and the subprocess call are parameters.
\<close>

definition outputPath ::
  "(string list \<Rightarrow> string) \<Rightarrow> (string \<Rightarrow> string) \<Rightarrow> (string \<Rightarrow> string) \<Rightarrow> string \<Rightarrow> string" where
  "outputPath path_join path_dirname path_basename imagePath =
     path_join [path_dirname imagePath, ''..'', ''output'', path_basename imagePath]"

definition writeCaption_args :: "string \<Rightarrow> string \<Rightarrow> string \<Rightarrow> string list" where
  "writeCaption_args imagePath captionText out =
     [''-overwrite_original'',
      ''-Caption-Abstract='' @ captionText,
      ''-Description='' @ captionText,
      ''-ImageDescription='' @ captionText,
      imagePath,
      ''-o'',
      out]"

definition writeCaption_error :: "thrown \<Rightarrow> thrown" where
  "writeCaption_error e =
     (let errorMessage = (case e of ErrorObj m _ \<Rightarrow> m | ZodError m \<Rightarrow> m | NonError str \<Rightarrow> str);
          stderr = (case nullish (case e of ErrorObj _ se \<Rightarrow> se | _ \<Rightarrow> None) (Some []) of
                      Some se \<Rightarrow> se | None \<Rightarrow> [])
      in ErrorObj (''Failed to write caption to image: '' @ errorMessage @
                   (if stderr \<noteq> [] then newline @ ''Details: '' @ stderr else [])) None)"

definition writeCaption ::
  "(string \<Rightarrow> string list \<Rightarrow> thrown + 'o) \<Rightarrow> (string list \<Rightarrow> string) \<Rightarrow> (string \<Rightarrow> string) \<Rightarrow>
   (string \<Rightarrow> string) \<Rightarrow> string \<Rightarrow> string \<Rightarrow> thrown + unit" where
  "writeCaption execFileAsync path_join path_dirname path_basename imagePath captionText =
     (case execFileAsync exiftool
             (writeCaption_args imagePath captionText
                (outputPath path_join path_dirname path_basename imagePath)) of
        Inr _ \<Rightarrow> Inr ()
      | Inl e \<Rightarrow> Inl (writeCaption_error e))"


section \<open>The orchestrator (index.ts): context read from the metadata\<close>

text \<open>Truthiness of \<^verbatim>\<open>string | string[] | undefined\<close>: every array is truthy.\<close>

definition truthy_tags :: "(string + string list) option \<Rightarrow> bool" where
  "truthy_tags v = (case v of None \<Rightarrow> False | Some (Inl s) \<Rightarrow> s \<noteq> [] | Some (Inr xs) \<Rightarrow> True)"

definition as_array :: "(string + string list) option \<Rightarrow> string list option" where
  "as_array v = (case v of None \<Rightarrow> None | Some (Inl s) \<Rightarrow> Some [s] | Some (Inr xs) \<Rightarrow> Some xs)"

text \<open>
  \<^verbatim>\<open>processImage\<close> of src/index.ts builds \<^verbatim>\<open>existingMetadata\<close> with \<^verbatim>\<open>||\<close>:
  \<^verbatim>\<open>metadata["Caption-Abstract"] || metadata["Description"] || metadata["ImageDescription"]\<close>
  and \<^verbatim>\<open>metadata["Keywords"] || metadata["Subject"]\<close>.
\<close>

definition processImage_existingMetadata :: "ExifMetadata \<Rightarrow> ExistingMetadata" where
  "processImage_existingMetadata metadata =
     (let existingCaption =
            or_else (or_else (Caption_Abstract metadata) (Description metadata))
                    (ImageDescription metadata);
          existingTags =
            (if truthy_tags (Keywords metadata) then Keywords metadata else Subject metadata)
      in \<lparr>caption = (if truthy existingCaption then existingCaption else None),
          tags = (if truthy_tags existingTags then as_array existingTags else None)\<rparr>)"

text \<open>
  The other \<^verbatim>\<open>processImage\<close> (the typed variant of the orchestrator) builds it with
  \<^verbatim>\<open>??\<close>: \<^verbatim>\<open>metadata["Caption-Abstract"] ?? metadata.Description ?? metadata.ImageDescription\<close>
  and \<^verbatim>\<open>metadata.Keywords ?? metadata.Subject\<close>; the two \<^verbatim>\<open>if\<close> statements that follow
  are the same.
\<close>

definition processImage_existingMetadata_nullish :: "ExifMetadata \<Rightarrow> ExistingMetadata" where
  "processImage_existingMetadata_nullish metadata =
     (let existingCaption =
            nullish (nullish (Caption_Abstract metadata) (Description metadata))
                    (ImageDescription metadata);
          existingTags = nullish (Keywords metadata) (Subject metadata)
      in \<lparr>caption = (if truthy existingCaption then existingCaption else None),
          tags = (if truthy_tags existingTags then as_array existingTags else None)\<rparr>)"


section \<open>Auxiliary definitions for the proofs about the runner\<close>

text \<open>The object literal that \<^verbatim>\<open>fn\<close> stores for an item and the value its operation settled with.\<close>

definition entry :: "'t \<Rightarrow> 'e + 'r \<Rightarrow> ('t, 'r, 'e) outcome" where
  "entry x out =
     (case out of
        Inr r \<Rightarrow> \<lparr>item = x, result = Some r, error = None\<rparr>
      | Inl e \<Rightarrow> \<lparr>item = x, result = None, error = Some e\<rparr>)"

text \<open>The value that the constructor stores in \<^verbatim>\<open>concurrency\<close>.\<close>

definition limit :: "int option \<Rightarrow> int" where
  "limit c = (case c of None \<Rightarrow> 4 | Some k \<Rightarrow> k)"

text \<open>The state after the first \<open>j\<close> items have been mapped on a new processor of limit \<open>k\<close>, in closed form.\<close>

definition submitted :: "int \<Rightarrow> nat \<Rightarrow> 't list \<Rightarrow> ('t, 'r, 'e) call" where
  "submitted k j items =
     \<lparr>this = \<lparr>concurrency = k, activeCount = int (min j (nat k)),
              queue = drop (min j (nat k)) (take j (enumerate 0 items))\<rparr>,
      results = [], promises = replicate j Pending,
      awaiting = take (min j (nat k)) (enumerate 0 items), finishing = [],
      started = [0..<min j (nat k)], deferred = [min j (nat k)..<j]\<rparr>"

text \<open>The indices of the tasks that have not run their \<^verbatim>\<open>finally\<close> block yet.\<close>

definition live :: "('t, 'r, 'e) call \<Rightarrow> nat set" where
  "live s = set (map fst (awaiting s) @ finishing s @ map fst (queue (this s)))"

text \<open>The invariant of a call on \<open>items\<close>: every task is queued, in flight, finishing or resolved, and \<^verbatim>\<open>activeCount\<close> counts the tasks in flight or finishing.\<close>

definition inv_tasks :: "'t list \<Rightarrow> ('t, 'r, 'e) call \<Rightarrow> bool" where
  "inv_tasks items s \<longleftrightarrow>
     length (promises s) = length items \<and>
     distinct (map fst (awaiting s) @ finishing s @ map fst (queue (this s))) \<and>
     (\<forall>i<length items. promises s ! i = (if i \<in> live s then Pending else Fulfilled ())) \<and>
     live s \<subseteq> {..<length items} \<and>
     activeCount (this s) = int (length (awaiting s)) + int (length (finishing s)) \<and>
     (\<forall>t\<in>set (awaiting s) \<union> set (queue (this s)). snd t = items ! fst t) \<and>
     length (results s) \<le> length items"

text \<open>The invariant of the order of admission.\<close>

definition inv_order :: "'t list \<Rightarrow> ('t, 'r, 'e) call \<Rightarrow> bool" where
  "inv_order items s \<longleftrightarrow>
     (\<exists>a\<le>length items. started s = [0..<a] \<and> map fst (queue (this s)) = [a..<length items]) \<and>
     (\<exists>m\<le>length (started s). deferred s = [m..<length items]) \<and>
     (queue (this s) \<noteq> [] \<longrightarrow> concurrency (this s) \<le> activeCount (this s)) \<and>
     activeCount (this s) \<le> max 0 (concurrency (this s))"

text \<open>The indices of the tasks whose operation has not settled yet.\<close>

definition unsettled :: "('t, 'r, 'e) call \<Rightarrow> nat set" where
  "unsettled s = set (map fst (awaiting s) @ map fst (queue (this s)))"

text \<open>The number of steps a call still has to make.\<close>

definition weight :: "('t, 'r, 'e) call \<Rightarrow> nat" where
  "weight s = 2 * (length (awaiting s) + length (queue (this s))) + length (finishing s)"


section \<open>Properties of the runner\<close>

text \<open>The definitions that a concrete run unfolds.\<close>

lemmas runner_defs = process_def submit_def start_call_def enqueue_def run_def constructor_def
  fn_resume_def run_finally_def release_def shift_next_def resolve_def assign_def js_nth_def
  process_promise_def Let_def

text \<open>
  C6. \<^verbatim>\<open>process([], op)\<close> resolves immediately to an empty result list without invoking
  the operation: right after the synchronous part, with no operation settled and no
  continuation run, the returned promise is fulfilled with the empty array, no call of
  the operation has been made, none is in flight and none is queued. This holds for
  every concurrency value.
\<close>

theorem process_empty:
  "process_promise (process (constructor c) []) = Fulfilled []
   \<and> started (process (constructor c) [] :: ('t, 'r, 'e) call) = []
   \<and> awaiting (process (constructor c) [] :: ('t, 'r, 'e) call) = []
   \<and> queue (this (process (constructor c) [] :: ('t, 'r, 'e) call)) = []"
  by (simp add: process_def start_call_def process_promise_def constructor_def)

lemma fn_resume_entry:
  "fn_resume task out s = s\<lparr>results := assign (fst task) (entry (snd task) out) (results s)\<rparr>"
  by (simp add: fn_resume_def entry_def split: sum.split)

lemma js_nth_assign: "js_nth (assign i v xs) k = (if k = i then Some v else js_nth xs k)"
  by (auto simp: js_nth_def assign_def nth_append)

lemma length_assign: "length (assign i v xs) = max (length xs) (Suc i)"
  by (auto simp: assign_def)

lemma find_fst_Some:
  "List.find (\<lambda>t. fst t = i) xs = Some t \<Longrightarrow> t \<in> set xs \<and> fst t = i"
  by (induction xs) (auto split: if_splits)

lemma find_fst_None:
  "List.find (\<lambda>t. fst t = i) xs = None \<longleftrightarrow> i \<notin> fst ` set xs"
  by (induction xs) (auto split: if_splits)

lemma step_Settle:
  assumes "step (Settle i out) s = Some s'"
  shows "\<exists>t. t \<in> set (awaiting s) \<and> fst t = i \<and>
           s' = s\<lparr>results := assign i (entry (snd t) out) (results s),
                  awaiting := remove1 t (awaiting s),
                  finishing := finishing s @ [i]\<rparr>"
proof -
  from assms obtain t where f: "List.find (\<lambda>t. fst t = i) (awaiting s) = Some t"
    by (auto split: option.splits)
  with assms have "s' = fn_resume t out (s\<lparr>awaiting := remove1 t (awaiting s), finishing := finishing s @ [i]\<rparr>)"
    by simp
  with find_fst_Some[OF f] show ?thesis
    by (intro exI[of _ t]) (simp add: fn_resume_entry)
qed

lemma step_Finally:
  assumes "step (Finally i) s = Some s'"
  shows "i \<in> set (finishing s) \<and>
         s' = (case queue (this s) of
                 [] \<Rightarrow> s\<lparr>this := (this s)\<lparr>activeCount := activeCount (this s) - 1\<rparr>,
                          promises := (promises s)[i := Fulfilled ()],
                          finishing := remove1 i (finishing s)\<rparr>
               | t # rest \<Rightarrow> s\<lparr>this := (this s)\<lparr>queue := rest\<rparr>,
                          promises := (promises s)[i := Fulfilled ()],
                          awaiting := awaiting s @ [t],
                          finishing := remove1 i (finishing s),
                          started := started s @ [fst t]\<rparr>)"
  using assms
  by (auto simp: run_finally_def resolve_def shift_next_def release_def run_def
      split: if_splits list.splits)

lemma submit_0: "submit 0 p items = start_call p"
  by (simp add: submit_def)

lemma submit_Suc:
  "j < length items \<Longrightarrow> submit (Suc j) p items = enqueue (j, items ! j) (submit j p items)"
  by (simp add: submit_def take_Suc_conv_app_nth nth_enumerate_eq)

lemma process_submit: "process p items = submit (length items) p items"
  by (simp add: submit_def process_def)

lemma enqueue_submitted:
  assumes "j < length items"
  shows "enqueue (j, items ! j) (submitted k j items) = submitted k (Suc j) items"
proof (cases "j < nat k")
  case True
  then have "int j < k" by linarith
  with True assms show ?thesis
    by (simp add: enqueue_def run_def submitted_def min_def take_Suc_conv_app_nth
        nth_enumerate_eq replicate_append_same)
next
  case False
  then have "\<not> int (nat k) < k" and "nat k \<le> j" by linarith+
  with False assms show ?thesis
    by (simp add: enqueue_def submitted_def min_def take_Suc_conv_app_nth
        nth_enumerate_eq replicate_append_same)
qed

lemma submit_closed:
  "j \<le> length items \<Longrightarrow> submit j (constructor c) items = submitted (limit c) j items"
proof (induction j)
  case 0
  show ?case
    by (simp add: submit_0 start_call_def submitted_def constructor_def limit_def)
next
  case (Suc j)
  then show ?case
    by (simp add: submit_Suc enqueue_submitted)
qed

lemma map_fst_remove1:
  "distinct (map f xs) \<Longrightarrow> x \<in> set xs \<Longrightarrow> map f (remove1 x xs) = remove1 (f x) (map f xs)"
  by (induction xs) (auto simp: rev_image_eqI)

lemma map_fst_enum_take:
  "a \<le> length xs \<Longrightarrow> map fst (take a (enumerate 0 xs)) = [0..<a]"
  by (simp add: take_map[symmetric])

lemma map_fst_enum_drop: "map fst (drop a (enumerate 0 xs)) = [a..<length xs]"
  by (simp add: drop_map[symmetric])

lemma snd_enumerate: "t \<in> set (enumerate 0 xs) \<Longrightarrow> snd t = xs ! fst t"
  by (auto simp: in_set_enumerate_eq)

lemma inv_tasks_submitted: "inv_tasks items (submitted k (length items) items)"
proof -
  define a where "a = min (length items) (nat k)"
  have a: "a \<le> length items" by (simp add: a_def)
  have s: "submitted k (length items) items =
     \<lparr>this = \<lparr>concurrency = k, activeCount = int a, queue = drop a (enumerate 0 items)\<rparr>,
      results = [], promises = replicate (length items) Pending,
      awaiting = take a (enumerate 0 items), finishing = [],
      started = [0..<a], deferred = [a..<length items]\<rparr>"
    by (simp add: submitted_def a_def)
  have l: "live (submitted k (length items) items :: ('a, 'b, 'c) call) = {..<length items}"
    using a by (auto simp add: s live_def map_fst_enum_take map_fst_enum_drop simp del: set_map map_map)
  have d: "distinct ([0..<a] @ [a..<length items])"
    by auto
  show ?thesis
    unfolding inv_tasks_def l
    using a d
    by (auto simp add: s map_fst_enum_take map_fst_enum_drop
        dest!: in_set_takeD in_set_dropD snd_enumerate simp del: set_map map_map)
qed

lemma inv_order_submitted: "inv_order items (submitted k (length items) items)"
proof -
  define a where "a = min (length items) (nat k)"
  have s: "submitted k (length items) items =
     \<lparr>this = \<lparr>concurrency = k, activeCount = int a, queue = drop a (enumerate 0 items)\<rparr>,
      results = [], promises = replicate (length items) Pending,
      awaiting = take a (enumerate 0 items), finishing = [],
      started = [0..<a], deferred = [a..<length items]\<rparr>"
    by (simp add: submitted_def a_def)
  have 1: "\<exists>b\<le>length items. [0..<a] = [0..<b] \<and> [a..<length items] = [b..<length items]"
    by (intro exI[of _ a]) (simp add: a_def)
  have 2: "\<exists>m\<le>a. [a..<length items] = [m..<length items]"
    by blast
  have 3: "a < length items \<longrightarrow> k \<le> int a"
    by (auto simp: a_def)
  have 4: "int a \<le> max 0 k"
    by (auto simp: a_def)
  show ?thesis
    unfolding inv_order_def s using 1 2 3 4
    by (simp add: map_fst_enum_drop)
qed

lemma length_remove1_int:
  "x \<in> set xs \<Longrightarrow> int (length (remove1 x xs)) = int (length xs) - 1"
  by (induction xs) auto

lemma inv_order_step:
  assumes "inv_order items s" and "step ev s = Some s'"
  shows "inv_order items s'"
proof (cases ev)
  case (Settle i out)
  with assms(2) obtain t where
    "s' = s\<lparr>results := assign i (entry (snd t) out) (results s),
            awaiting := remove1 t (awaiting s),
            finishing := finishing s @ [i]\<rparr>"
    using step_Settle by blast
  with assms(1) show ?thesis
    by (simp add: inv_order_def)
next
  case (Finally i)
  with assms(2) have s': "s' = (case queue (this s) of
                 [] \<Rightarrow> s\<lparr>this := (this s)\<lparr>activeCount := activeCount (this s) - 1\<rparr>,
                          promises := (promises s)[i := Fulfilled ()],
                          finishing := remove1 i (finishing s)\<rparr>
               | t # rest \<Rightarrow> s\<lparr>this := (this s)\<lparr>queue := rest\<rparr>,
                          promises := (promises s)[i := Fulfilled ()],
                          awaiting := awaiting s @ [t],
                          finishing := remove1 i (finishing s),
                          started := started s @ [fst t]\<rparr>)"
    using step_Finally by blast
  from assms(1) obtain a m where
    a: "started s = [0..<a]" "map fst (queue (this s)) = [a..<length items]" "a \<le> length items" and
    m: "m \<le> length (started s)" "deferred s = [m..<length items]" and
    c: "queue (this s) \<noteq> [] \<longrightarrow> concurrency (this s) \<le> activeCount (this s)"
       "activeCount (this s) \<le> max 0 (concurrency (this s))"
    unfolding inv_order_def by blast
  show ?thesis
  proof (cases "queue (this s)")
    case Nil
    with s' a m c show ?thesis
      by (auto simp: inv_order_def)
  next
    case (Cons t rest)
    with a(2)[symmetric] have "a < length items" and "fst t = a" and "map fst rest = [Suc a..<length items]"
      by (auto simp: upt_eq_Cons_conv)
    with Cons s' a(1) have 1: "\<exists>b\<le>length items. started s' = [0..<b] \<and> map fst (queue (this s')) = [b..<length items]"
      by (intro exI[of _ "Suc a"]) simp
    from Cons s' m have 2: "\<exists>m\<le>length (started s'). deferred s' = [m..<length items]"
      by (intro exI[of _ m]) simp
    from Cons s' c have 3: "(queue (this s') \<noteq> [] \<longrightarrow> concurrency (this s') \<le> activeCount (this s')) \<and>
       activeCount (this s') \<le> max 0 (concurrency (this s'))"
      by simp
    from 1 2 3 show ?thesis
      unfolding inv_order_def by blast
  qed
qed

lemma inv_tasks_Settle:
  assumes "inv_tasks items s" and "step (Settle i out) s = Some s'"
  shows "inv_tasks items s'"
proof -
  from assms(2) obtain t where t: "t \<in> set (awaiting s)" "fst t = i" and
    s': "s' = s\<lparr>results := assign i (entry (snd t) out) (results s),
            awaiting := remove1 t (awaiting s),
            finishing := finishing s @ [i]\<rparr>"
    using step_Settle by blast
  from assms(1) have
    d: "distinct (map fst (awaiting s) @ finishing s @ map fst (queue (this s)))" and
    l: "live s \<subseteq> {..<length items}"
    by (simp_all add: inv_tasks_def)
  from d have da: "distinct (map fst (awaiting s))" by simp
  have m: "map fst (remove1 t (awaiting s)) = remove1 i (map fst (awaiting s))"
    using map_fst_remove1[OF da t(1)] t(2) by simp
  have iA: "i \<in> set (map fst (awaiting s))" using t by force
  with l have i: "i < length items" by (auto simp: live_def)
  have live': "live s' = live s"
    using iA da by (auto simp: live_def s' m simp del: set_map)
  have d': "distinct (map fst (awaiting s') @ finishing s' @ map fst (queue (this s')))"
    using d iA by (auto simp: s' m simp del: set_map)
  have len: "int (length (awaiting s')) + int (length (finishing s')) =
             int (length (awaiting s)) + int (length (finishing s))"
    using t(1) by (simp add: s' length_remove1_int)
  have sub: "set (awaiting s') \<subseteq> set (awaiting s)"
    by (simp add: s' set_remove1_subset)
  show ?thesis
    unfolding inv_tasks_def live' len
    using assms(1) d' i sub
    unfolding inv_tasks_def
    by (auto simp: s' length_assign)
qed

lemma inv_tasks_Finally:
  assumes "inv_tasks items s" and "step (Finally i) s = Some s'"
  shows "inv_tasks items s'"
proof -
  from assms(2) have iF: "i \<in> set (finishing s)" and s': "s' = (case queue (this s) of
                 [] \<Rightarrow> s\<lparr>this := (this s)\<lparr>activeCount := activeCount (this s) - 1\<rparr>,
                          promises := (promises s)[i := Fulfilled ()],
                          finishing := remove1 i (finishing s)\<rparr>
               | t # rest \<Rightarrow> s\<lparr>this := (this s)\<lparr>queue := rest\<rparr>,
                          promises := (promises s)[i := Fulfilled ()],
                          awaiting := awaiting s @ [t],
                          finishing := remove1 i (finishing s),
                          started := started s @ [fst t]\<rparr>)"
    using step_Finally by blast+
  from assms(1) have
    d: "distinct (map fst (awaiting s) @ finishing s @ map fst (queue (this s)))" and
    l: "live s \<subseteq> {..<length items}" and
    p: "\<forall>k<length items. promises s ! k = (if k \<in> live s then Pending else Fulfilled ())" and
    n: "length (promises s) = length items"
    by (simp_all add: inv_tasks_def)
  have live': "live s' = live s - {i}"
    using d iF by (auto simp: live_def s' split: list.splits simp del: set_map)
  have d': "distinct (map fst (awaiting s') @ finishing s' @ map fst (queue (this s')))"
    using d iF by (auto simp: s' split: list.splits simp del: set_map)
  have i: "i < length items"
    using l iF by (auto simp: live_def)
  have ps: "promises s' = (promises s)[i := Fulfilled ()]"
    by (simp add: s' split: list.splits)
  have p': "\<forall>k<length items. promises s' ! k = (if k \<in> live s' then Pending else Fulfilled ())"
  proof (intro allI impI)
    fix k assume "k < length items"
    with p have "promises s ! k = (if k \<in> live s then Pending else Fulfilled ())" by simp
    then show "promises s' ! k = (if k \<in> live s' then Pending else Fulfilled ())"
      using n i \<open>k < length items\<close> by (auto simp: ps live' nth_list_update)
  qed
  have len: "int (length (awaiting s')) + int (length (finishing s')) = activeCount (this s')"
    using assms(1) iF
    by (auto simp: s' inv_tasks_def length_remove1_int split: list.splits)
  have rest: "(\<forall>t\<in>set (awaiting s') \<union> set (queue (this s')). snd t = items ! fst t) \<and>
     length (results s') \<le> length items"
    using assms(1) by (auto simp: s' inv_tasks_def split: list.splits)
  show ?thesis
    unfolding inv_tasks_def
    using d' p' len rest l n by (auto simp: live' ps)
qed

lemma inv_tasks_step:
  "inv_tasks items s \<Longrightarrow> step ev s = Some s' \<Longrightarrow> inv_tasks items s'"
  by (cases ev) (auto intro: inv_tasks_Settle inv_tasks_Finally)

lemma unsettled_Settle:
  assumes "inv_tasks items s" and "step (Settle i out) s = Some s'"
  shows "i \<in> unsettled s \<and> unsettled s' = unsettled s - {i} \<and>
         (\<forall>k. js_nth (results s') k = (if k = i then Some (entry (items ! i) out) else js_nth (results s) k))"
proof -
  from assms(2) obtain t where t: "t \<in> set (awaiting s)" "fst t = i" and
    s': "s' = s\<lparr>results := assign i (entry (snd t) out) (results s),
            awaiting := remove1 t (awaiting s),
            finishing := finishing s @ [i]\<rparr>"
    using step_Settle by blast
  from assms(1) have
    d: "distinct (map fst (awaiting s) @ finishing s @ map fst (queue (this s)))" and
    it: "snd t = items ! fst t"
    using t(1) by (simp_all add: inv_tasks_def)
  from d have da: "distinct (map fst (awaiting s))" by simp
  have m: "map fst (remove1 t (awaiting s)) = remove1 i (map fst (awaiting s))"
    using map_fst_remove1[OF da t(1)] t(2) by simp
  have iA: "i \<in> set (map fst (awaiting s))" using t by force
  have 1: "unsettled s' = unsettled s - {i}"
    using iA d by (auto simp: unsettled_def s' m simp del: set_map)
  have 2: "i \<in> unsettled s" using iA by (simp add: unsettled_def del: set_map)
  have 3: "\<forall>k. js_nth (results s') k = (if k = i then Some (entry (items ! i) out) else js_nth (results s) k)"
    using it t(2) by (simp add: s' js_nth_assign)
  from 1 2 3 show ?thesis by blast
qed

lemma unsettled_Finally:
  assumes "step (Finally i) s = Some s'"
  shows "unsettled s' = unsettled s \<and> results s' = results s"
  using step_Finally[OF assms]
  by (auto simp: unsettled_def split: list.splits)

lemma inv_tasks_exec:
  "exec evs s = Some s' \<Longrightarrow> inv_tasks items s \<Longrightarrow> inv_tasks items s'"
  by (induction evs arbitrary: s) (auto split: option.splits dest: inv_tasks_step)

lemma inv_order_exec:
  "exec evs s = Some s' \<Longrightarrow> inv_order items s \<Longrightarrow> inv_order items s'"
  by (induction evs arbitrary: s) (auto split: option.splits dest: inv_order_step)

lemma results_exec:
  assumes "exec evs s = Some s'" and "inv_tasks items s"
  shows "(i \<in> unsettled s \<longrightarrow> i \<notin> unsettled s' \<longrightarrow>
            (\<exists>out. outcome_of evs i = Some out \<and> js_nth (results s') i = Some (entry (items ! i) out)))
       \<and> (i \<notin> unsettled s \<longrightarrow> i \<notin> unsettled s' \<and> js_nth (results s') i = js_nth (results s) i)"
  using assms
proof (induction evs arbitrary: s)
  case Nil
  then show ?case by simp
next
  case (Cons ev evs)
  from Cons.prems(1) obtain s1 where s1: "step ev s = Some s1" and ex: "exec evs s1 = Some s'"
    by (auto split: option.splits)
  have inv1: "inv_tasks items s1"
    using inv_tasks_step[OF Cons.prems(2) s1] .
  note IH = Cons.IH[OF ex inv1]
  show ?case
  proof (cases ev)
    case (Settle j out)
    with s1 have "step (Settle j out) s = Some s1" by simp
    from unsettled_Settle[OF Cons.prems(2) this] IH Settle
    show ?thesis by auto
  next
    case (Finally j)
    with s1 have "step (Finally j) s = Some s1" by simp
    from unsettled_Finally[OF this] IH Finally
    show ?thesis by auto
  qed
qed

lemma Promise_all_Fulfilled:
  "Promise_all ps = Fulfilled vs \<Longrightarrow> p \<in> set ps \<Longrightarrow> \<exists>v. p = Fulfilled v"
  by (induction ps arbitrary: vs) (auto split: promise.splits)

lemma Promise_all_all_Fulfilled:
  "(\<And>p. p \<in> set ps \<Longrightarrow> \<exists>v. p = Fulfilled v) \<Longrightarrow> \<exists>vs. Promise_all ps = Fulfilled vs"
  by (induction ps) (fastforce split: promise.splits)+

lemma Promise_all_not_Rejected:
  "(\<And>p. p \<in> set ps \<Longrightarrow> p = Pending \<or> (\<exists>v. p = Fulfilled v)) \<Longrightarrow> Promise_all ps \<noteq> Rejected e"
  by (induction ps) (fastforce split: promise.splits)+

lemma Promise_all_Pending:
  "Pending \<in> set ps \<Longrightarrow> (\<And>p. p \<in> set ps \<Longrightarrow> p = Pending \<or> (\<exists>v. p = Fulfilled v)) \<Longrightarrow> Promise_all ps = Pending"
  using Promise_all_Fulfilled Promise_all_not_Rejected
  by (metis promise.distinct(1) promise.exhaust)

lemma process_closed: "process (constructor c) items = submitted (limit c) (length items) items"
  by (simp add: process_submit submit_closed)

lemma inv_tasks_process: "inv_tasks items (process (constructor c) items)"
  by (simp add: process_closed inv_tasks_submitted)

lemma inv_order_process: "inv_order items (process (constructor c) items)"
  by (simp add: process_closed inv_order_submitted)

lemma unsettled_process:
  "unsettled (process (constructor c) items :: ('t, 'r, 'e) call) = {..<length items}"
proof -
  define a where "a = min (length items) (nat (limit c))"
  have "a \<le> length items" by (simp add: a_def)
  then show ?thesis
    by (auto simp add: process_closed submitted_def unsettled_def a_def[symmetric]
        map_fst_enum_take map_fst_enum_drop simp del: set_map map_map)
qed

lemma results_process: "results (process (constructor c) items) = []"
  by (simp add: process_closed submitted_def)

lemma fulfilled_no_live:
  assumes "inv_tasks items s" and "process_promise s = Fulfilled rs"
  shows "live s = {} \<and> rs = results s"
proof -
  from assms(2) obtain vs where pa: "Promise_all (promises s) = Fulfilled vs" and rs: "rs = results s"
    by (auto simp: process_promise_def split: promise.splits)
  have "i \<notin> live s" for i
  proof
    assume i: "i \<in> live s"
    with assms(1) have "i < length items" "promises s ! i = Pending" "length (promises s) = length items"
      by (auto simp: inv_tasks_def)
    then have "Pending \<in> set (promises s)" by (metis nth_mem)
    with Promise_all_Fulfilled[OF pa] show False by blast
  qed
  with rs show ?thesis by blast
qed

lemma settle_in_schedule:
  assumes "exec evs s = Some s'" and "inv_tasks items s" and "Settle j out \<in> set evs"
  shows "j \<in> unsettled s \<and> j \<notin> unsettled s' \<and> outcome_of evs j = Some out"
  using assms
proof (induction evs arbitrary: s)
  case Nil
  then show ?case by simp
next
  case (Cons ev evs)
  from Cons.prems(1) obtain s1 where s1: "step ev s = Some s1" and ex: "exec evs s1 = Some s'"
    by (auto split: option.splits)
  have inv1: "inv_tasks items s1"
    using inv_tasks_step[OF Cons.prems(2) s1] .
  note IH = Cons.IH[OF ex inv1]
  note R = results_exec[OF ex inv1, of j]
  show ?case
  proof (cases ev)
    case (Settle i out0)
    with s1 have st: "step (Settle i out0) s = Some s1" by simp
    note U = unsettled_Settle[OF Cons.prems(2) st]
    show ?thesis
    proof (cases "i = j")
      case True
      with U have j: "j \<in> unsettled s" "j \<notin> unsettled s1" by auto
      with R have "j \<notin> unsettled s'" by simp
      moreover have "out = out0"
      proof (rule ccontr)
        assume "out \<noteq> out0"
        with Cons.prems(3) Settle True have "Settle j out \<in> set evs" by auto
        with IH j(2) show False by simp
      qed
      ultimately show ?thesis using j Settle True by simp
    next
      case False
      with Cons.prems(3) Settle have "Settle j out \<in> set evs" by auto
      with IH U False Settle show ?thesis by auto
    qed
  next
    case (Finally i)
    with s1 have st: "step (Finally i) s = Some s1" by simp
    from Cons.prems(3) Finally have "Settle j out \<in> set evs" by auto
    with IH unsettled_Finally[OF st] Finally show ?thesis by auto
  qed
qed

lemma concurrency_step: "step ev s = Some s' \<Longrightarrow> concurrency (this s') = concurrency (this s)"
proof (cases ev)
  case (Settle i out)
  assume "step ev s = Some s'"
  with Settle step_Settle[of i out s s'] show ?thesis by auto
next
  case (Finally i)
  assume "step ev s = Some s'"
  with Finally step_Finally[of i s s'] show ?thesis by (auto split: list.splits)
qed

lemma concurrency_exec: "exec evs s = Some s' \<Longrightarrow> concurrency (this s') = concurrency (this s)"
  by (induction evs arbitrary: s) (auto split: option.splits dest: concurrency_step)

lemma concurrency_process: "concurrency (this (process (constructor c) items)) = limit c"
  by (simp add: process_closed submitted_def)

lemma concurrency_constructor: "concurrency (constructor c) = limit c"
  by (simp add: constructor_def limit_def)

lemma count_bounds:
  assumes "inv_tasks items s" and "inv_order items s" and "0 \<le> concurrency (this s)"
  shows "0 \<le> activeCount (this s) \<and> activeCount (this s) \<le> concurrency (this s) \<and>
         int (length (awaiting s)) \<le> activeCount (this s)"
  using assms by (simp add: inv_tasks_def inv_order_def)

lemma submit_bounds:
  assumes "j \<le> length items" and "0 \<le> limit c"
  shows "0 \<le> activeCount (this (submit j (constructor c) items)) \<and>
         activeCount (this (submit j (constructor c) items)) \<le> limit c \<and>
         int (length (awaiting (submit j (constructor c) items))) \<le>
           activeCount (this (submit j (constructor c) items))"
  using assms by (simp add: submit_closed submitted_def)

lemma reachable_inv:
  assumes "exec evs (process (constructor c) items) = Some s"
  shows "inv_tasks items s" and "inv_order items s" and "concurrency (this s) = limit c"
  using assms inv_tasks_exec inv_tasks_process inv_order_exec inv_order_process
    concurrency_exec concurrency_process
  by metis+

lemma finally_bounds:
  assumes "inv_tasks items s" and "inv_order items s" and "1 \<le> concurrency (this s)"
    and "i \<in> set (finishing s)"
  shows "0 \<le> activeCount (this (release (s\<lparr>finishing := remove1 i (finishing s)\<rparr>))) \<and>
         activeCount (this (release (s\<lparr>finishing := remove1 i (finishing s)\<rparr>))) < concurrency (this s) \<and>
         0 \<le> activeCount (this (shift_next (release (s\<lparr>finishing := remove1 i (finishing s)\<rparr>)))) \<and>
         activeCount (this (shift_next (release (s\<lparr>finishing := remove1 i (finishing s)\<rparr>)))) \<le> concurrency (this s)"
proof -
  from assms(4) have f: "0 < int (length (finishing s))"
    using length_pos_if_in_set by fastforce
  from assms(1) have ac: "activeCount (this s) = int (length (awaiting s)) + int (length (finishing s))"
    by (simp add: inv_tasks_def)
  from assms(2,3) have le: "activeCount (this s) \<le> concurrency (this s)"
    by (simp add: inv_order_def)
  from f ac have pos: "1 \<le> activeCount (this s)" by linarith
  show ?thesis
    using pos le by (cases "queue (this s)") (simp_all add: release_def shift_next_def run_def)
qed

text \<open>
  C2. The concurrency bound. On a new processor with a limit of at least one,
  \<^verbatim>\<open>activeCount\<close> stays between zero and the limit, and the number of operations in
  flight is at most \<^verbatim>\<open>activeCount\<close>: after each item of the synchronous part, in every
  state that a schedule reaches, and inside a \<^verbatim>\<open>finally\<close> block after the decrement and
  after the start of the next task. The admission rule of \<^verbatim>\<open>enqueue\<close>, in any state:
  when \<^verbatim>\<open>activeCount < concurrency\<close> the operation is started at once and the queue is
  left as it is; otherwise nothing is started and the task is appended to the queue.
\<close>

theorem concurrency_bound:
  fixes items :: "'t list"
  assumes "1 \<le> concurrency (constructor c :: 't ParallelProcessor)"
  shows
    "(\<forall>j\<le>length items.
        0 \<le> activeCount (this (submit j (constructor c) items :: ('t, 'r, 'e) call)) \<and>
        activeCount (this (submit j (constructor c) items :: ('t, 'r, 'e) call))
          \<le> concurrency (constructor c :: 't ParallelProcessor) \<and>
        int (length (awaiting (submit j (constructor c) items :: ('t, 'r, 'e) call)))
          \<le> activeCount (this (submit j (constructor c) items :: ('t, 'r, 'e) call))) \<and>
     (\<forall>evs (s :: ('t, 'r, 'e) call). exec evs (process (constructor c) items) = Some s \<longrightarrow>
        0 \<le> activeCount (this s) \<and>
        activeCount (this s) \<le> concurrency (constructor c :: 't ParallelProcessor) \<and>
        int (length (awaiting s)) \<le> activeCount (this s) \<and>
        (\<forall>i. i \<in> set (finishing s) \<longrightarrow>
           0 \<le> activeCount (this (release (s\<lparr>finishing := remove1 i (finishing s)\<rparr>))) \<and>
           activeCount (this (shift_next (release (s\<lparr>finishing := remove1 i (finishing s)\<rparr>))))
             \<le> concurrency (constructor c :: 't ParallelProcessor))) \<and>
     (\<forall>task (s :: ('t, 'r, 'e) call).
        (activeCount (this s) < concurrency (this s) \<longrightarrow>
           started (enqueue task s) = started s @ [fst task] \<and>
           awaiting (enqueue task s) = awaiting s @ [task] \<and>
           queue (this (enqueue task s)) = queue (this s) \<and>
           activeCount (this (enqueue task s)) = activeCount (this s) + 1) \<and>
        (\<not> activeCount (this s) < concurrency (this s) \<longrightarrow>
           started (enqueue task s) = started s \<and>
           awaiting (enqueue task s) = awaiting s \<and>
           queue (this (enqueue task s)) = queue (this s) @ [task] \<and>
           activeCount (this (enqueue task s)) = activeCount (this s)))"
proof -
  from assms have k: "1 \<le> limit c" by (simp add: concurrency_constructor)
  have 1: "0 \<le> activeCount (this (submit j (constructor c) items :: ('t, 'r, 'e) call)) \<and>
        activeCount (this (submit j (constructor c) items :: ('t, 'r, 'e) call))
          \<le> concurrency (constructor c :: 't ParallelProcessor) \<and>
        int (length (awaiting (submit j (constructor c) items :: ('t, 'r, 'e) call)))
          \<le> activeCount (this (submit j (constructor c) items :: ('t, 'r, 'e) call))"
    if "j \<le> length items" for j
    using submit_bounds[OF that, of c] k by (simp add: concurrency_constructor)
  have 2: "0 \<le> activeCount (this s) \<and>
        activeCount (this s) \<le> concurrency (constructor c :: 't ParallelProcessor) \<and>
        int (length (awaiting s)) \<le> activeCount (this s) \<and>
        (\<forall>i. i \<in> set (finishing s) \<longrightarrow>
           0 \<le> activeCount (this (release (s\<lparr>finishing := remove1 i (finishing s)\<rparr>))) \<and>
           activeCount (this (shift_next (release (s\<lparr>finishing := remove1 i (finishing s)\<rparr>))))
             \<le> concurrency (constructor c :: 't ParallelProcessor))"
    if "exec evs (process (constructor c) items) = Some s" for evs and s :: "('t, 'r, 'e) call"
  proof -
    note r = reachable_inv[OF that]
    from r(3) k have c: "1 \<le> concurrency (this s)" by simp
    then have c0: "0 \<le> concurrency (this s)" by simp
    from count_bounds[OF r(1,2) c0] finally_bounds[OF r(1,2) c] r(3)
    show ?thesis by (simp add: concurrency_constructor)
  qed
  have 3: "(activeCount (this s) < concurrency (this s) \<longrightarrow>
           started (enqueue task s) = started s @ [fst task] \<and>
           awaiting (enqueue task s) = awaiting s @ [task] \<and>
           queue (this (enqueue task s)) = queue (this s) \<and>
           activeCount (this (enqueue task s)) = activeCount (this s) + 1) \<and>
        (\<not> activeCount (this s) < concurrency (this s) \<longrightarrow>
           started (enqueue task s) = started s \<and>
           awaiting (enqueue task s) = awaiting s \<and>
           queue (this (enqueue task s)) = queue (this s) @ [task] \<and>
           activeCount (this (enqueue task s)) = activeCount (this s))"
    for task and s :: "('t, 'r, 'e) call"
    by (simp add: enqueue_def run_def)
  from 1 2 3 show ?thesis by blast
qed

theorem concurrency_bound_witness:
  "1 \<le> concurrency (constructor (Some 2) :: string ParallelProcessor) \<and>
   (\<exists>s. exec [Settle 1 (Inl ''boom''), Finally 1]
          (process (constructor (Some 2)) [''a.jpg'', ''b.jpg'', ''c.jpg'']
             :: (string, nat, string) call) = Some s \<and>
        0 \<le> activeCount (this s) \<and>
        activeCount (this s) \<le> concurrency (constructor (Some 2) :: string ParallelProcessor) \<and>
        int (length (awaiting s)) \<le> activeCount (this s))"
proof -
  have k: "1 \<le> concurrency (constructor (Some 2) :: string ParallelProcessor)"
    by (simp add: constructor_def)
  have "\<exists>s. exec [Settle 1 (Inl ''boom''), Finally 1]
          (process (constructor (Some 2)) [''a.jpg'', ''b.jpg'', ''c.jpg'']
             :: (string, nat, string) call) = Some s"
    by (simp add: runner_defs)
  then obtain s where e: "exec [Settle 1 (Inl ''boom''), Finally 1]
          (process (constructor (Some 2)) [''a.jpg'', ''b.jpg'', ''c.jpg'']
             :: (string, nat, string) call) = Some s"
    by blast
  from concurrency_bound[OF k, of "[''a.jpg'', ''b.jpg'', ''c.jpg'']"] e
  have "0 \<le> activeCount (this s) \<and>
        activeCount (this s) \<le> concurrency (constructor (Some 2) :: string ParallelProcessor) \<and>
        int (length (awaiting s)) \<le> activeCount (this s)"
    by blast
  with k e show ?thesis by blast
qed

lemma filter_upt_window: "filter (\<lambda>i. i \<in> set [m..<n]) [0..<a] = [m..<min a n]"
  by (induction a) (auto simp: min_def not_less_eq_eq)

lemma fifo_inv:
  assumes "inv_order items s"
  shows "filter (\<lambda>i. i \<in> set (deferred s)) (started s) @ map fst (queue (this s)) = deferred s"
    and "map (\<lambda>i. items ! i) (started s) = take (length (started s)) items"
    and "queue (this s) = [] \<Longrightarrow> started s = [0..<length items]"
proof -
  from assms obtain a m where
    a: "started s = [0..<a]" "map fst (queue (this s)) = [a..<length items]" "a \<le> length items" and
    m: "m \<le> length (started s)" "deferred s = [m..<length items]"
    unfolding inv_order_def by blast
  from m(1) a(1) have ma: "m \<le> a" by simp
  have "[m..<a] @ [a..<length items] = [m..<length items]"
    using ma a(3) by (metis le_Suc_ex upt_add_eq_append)
  with a ma m show "filter (\<lambda>i. i \<in> set (deferred s)) (started s) @ map fst (queue (this s)) = deferred s"
    by (simp add: filter_upt_window min_def del: set_upt)
  have "map (\<lambda>i. items ! i) [0..<a] = take a items"
    using a(3) by (metis map_nth take_map take_upt add_0)
  with a(1) show "map (\<lambda>i. items ! i) (started s) = take (length (started s)) items"
    by simp
  show "started s = [0..<length items]" if "queue (this s) = []"
  proof -
    from that a(2) have "[a..<length items] = []" by simp
    then have "length items \<le> a" by auto
    with a(1,3) show ?thesis by simp
  qed
qed

lemma deferred_step: "step ev s = Some s' \<Longrightarrow> deferred s' = deferred s"
proof (cases ev)
  case (Settle i out)
  assume "step ev s = Some s'"
  with Settle step_Settle[of i out s s'] show ?thesis by auto
next
  case (Finally i)
  assume "step ev s = Some s'"
  with Finally step_Finally[of i s s'] show ?thesis by (auto split: list.splits)
qed

lemma deferred_exec: "exec evs s = Some s' \<Longrightarrow> deferred s' = deferred s"
  by (induction evs arbitrary: s) (auto split: option.splits dest: deferred_step)

lemma fulfilled_started:
  assumes "inv_tasks items s" and "inv_order items s" and "process_promise s = Fulfilled rs"
  shows "started s = [0..<length items]"
proof -
  from fulfilled_no_live[OF assms(1,3)] have "queue (this s) = []"
    by (simp add: live_def)
  with fifo_inv(3)[OF assms(2)] show ?thesis by simp
qed

text \<open>
  C4. Admission in FIFO order. When the operation of task \<open>i\<close> settles, with a success
  or a failure, \<^verbatim>\<open>activeCount\<close> and the queue stay as they are and the \<^verbatim>\<open>finally\<close>
  block of task \<open>i\<close> is due. That block decrements \<^verbatim>\<open>activeCount\<close>; if the queue is
  empty nothing is started, otherwise exactly its head is removed and started (which
  increments \<^verbatim>\<open>activeCount\<close> again). In every state that a schedule reaches from a call
  on a new processor, the deferred tasks that have started, in the order of their
  start, followed by the tasks still queued, are the deferred tasks in the order of
  their deferral; the items whose operations have started are a prefix of the item
  list, in its order, and all of it once the call has resolved. With a limit of one
  and the items A, B, C: B and C are deferred in this order and the operations start in
  the order A, B, C.
\<close>

theorem fifo_admission:
  fixes items :: "'t list"
  shows
    "(\<forall>i out (s :: ('t, 'r, 'e) call) s1. step (Settle i out) s = Some s1 \<longrightarrow>
        activeCount (this s1) = activeCount (this s) \<and> queue (this s1) = queue (this s) \<and>
        started s1 = started s \<and> step (Finally i) s1 \<noteq> None) \<and>
     (\<forall>i (s :: ('t, 'r, 'e) call) s'. step (Finally i) s = Some s' \<longrightarrow>
        (queue (this s) = [] \<longrightarrow>
           activeCount (this s') = activeCount (this s) - 1 \<and> queue (this s') = [] \<and>
           started s' = started s \<and> awaiting s' = awaiting s) \<and>
        (\<forall>t rest. queue (this s) = t # rest \<longrightarrow>
           activeCount (this s') = activeCount (this s) - 1 + 1 \<and> queue (this s') = rest \<and>
           started s' = started s @ [fst t] \<and> awaiting s' = awaiting s @ [t])) \<and>
     (\<forall>evs (s :: ('t, 'r, 'e) call). exec evs (process (constructor c) items) = Some s \<longrightarrow>
        filter (\<lambda>i. i \<in> set (deferred s)) (started s) @ map fst (queue (this s)) = deferred s \<and>
        map (\<lambda>i. items ! i) (started s) = take (length (started s)) items \<and>
        (\<forall>rs. process_promise s = Fulfilled rs \<longrightarrow> map (\<lambda>i. items ! i) (started s) = items)) \<and>
     (\<forall>A B C evs (s :: ('t, 'r, 'e) call).
        exec evs (process (constructor (Some 1)) [A, B, C]) = Some s \<longrightarrow>
        deferred s = [1, 2] \<and>
        map (\<lambda>i. [A, B, C] ! i) (started s) = take (length (started s)) [A, B, C] \<and>
        (\<forall>rs. process_promise s = Fulfilled rs \<longrightarrow> map (\<lambda>i. [A, B, C] ! i) (started s) = [A, B, C]))"
proof -
  have 1: "activeCount (this s1) = activeCount (this s) \<and> queue (this s1) = queue (this s) \<and>
        started s1 = started s \<and> step (Finally i) s1 \<noteq> None"
    if "step (Settle i out) s = Some s1" for i out and s s1 :: "('t, 'r, 'e) call"
    using step_Settle[OF that] by auto
  have 2: "(queue (this s) = [] \<longrightarrow>
           activeCount (this s') = activeCount (this s) - 1 \<and> queue (this s') = [] \<and>
           started s' = started s \<and> awaiting s' = awaiting s) \<and>
        (\<forall>t rest. queue (this s) = t # rest \<longrightarrow>
           activeCount (this s') = activeCount (this s) - 1 + 1 \<and> queue (this s') = rest \<and>
           started s' = started s @ [fst t] \<and> awaiting s' = awaiting s @ [t])"
    if "step (Finally i) s = Some s'" for i and s s' :: "('t, 'r, 'e) call"
    using step_Finally[OF that] by auto
  have 3: "filter (\<lambda>i. i \<in> set (deferred s)) (started s) @ map fst (queue (this s)) = deferred s \<and>
        map (\<lambda>i. xs ! i) (started s) = take (length (started s)) xs \<and>
        (\<forall>rs. process_promise s = Fulfilled rs \<longrightarrow> map (\<lambda>i. xs ! i) (started s) = xs)"
    if "exec evs (process (constructor c') xs) = Some s"
    for evs c' and xs :: "'t list" and s :: "('t, 'r, 'e) call"
  proof -
    note r = reachable_inv[OF that]
    have "map (\<lambda>i. xs ! i) (started s) = xs" if "process_promise s = Fulfilled rs" for rs
      using fulfilled_started[OF r(1,2) that] by (simp add: map_nth)
    with fifo_inv(1,2)[OF r(2)] show ?thesis by blast
  qed
  have 4: "deferred s = [1, 2]"
    if "exec evs (process (constructor (Some 1)) [A, B, C]) = Some s"
    for evs A B C and s :: "('t, 'r, 'e) call"
    using deferred_exec[OF that]
    by (simp add: process_def start_call_def enqueue_def run_def constructor_def)
  have P1: "\<forall>i out (s :: ('t, 'r, 'e) call) s1. step (Settle i out) s = Some s1 \<longrightarrow>
        activeCount (this s1) = activeCount (this s) \<and> queue (this s1) = queue (this s) \<and>
        started s1 = started s \<and> step (Finally i) s1 \<noteq> None"
    using 1 by blast
  have P2: "\<forall>i (s :: ('t, 'r, 'e) call) s'. step (Finally i) s = Some s' \<longrightarrow>
        (queue (this s) = [] \<longrightarrow>
           activeCount (this s') = activeCount (this s) - 1 \<and> queue (this s') = [] \<and>
           started s' = started s \<and> awaiting s' = awaiting s) \<and>
        (\<forall>t rest. queue (this s) = t # rest \<longrightarrow>
           activeCount (this s') = activeCount (this s) - 1 + 1 \<and> queue (this s') = rest \<and>
           started s' = started s @ [fst t] \<and> awaiting s' = awaiting s @ [t])"
    using 2 by blast
  have P3: "\<forall>evs (s :: ('t, 'r, 'e) call). exec evs (process (constructor c) items) = Some s \<longrightarrow>
        filter (\<lambda>i. i \<in> set (deferred s)) (started s) @ map fst (queue (this s)) = deferred s \<and>
        map (\<lambda>i. items ! i) (started s) = take (length (started s)) items \<and>
        (\<forall>rs. process_promise s = Fulfilled rs \<longrightarrow> map (\<lambda>i. items ! i) (started s) = items)"
    using 3[of _ c items] by blast
  have P4: "\<forall>A B C evs (s :: ('t, 'r, 'e) call).
        exec evs (process (constructor (Some 1)) [A, B, C]) = Some s \<longrightarrow>
        deferred s = [1, 2] \<and>
        map (\<lambda>i. [A, B, C] ! i) (started s) = take (length (started s)) [A, B, C] \<and>
        (\<forall>rs. process_promise s = Fulfilled rs \<longrightarrow> map (\<lambda>i. [A, B, C] ! i) (started s) = [A, B, C])"
    using 3[of _ "Some 1"] 4 by blast
  from P1 P2 P3 P4 show ?thesis
    by (intro conjI)
qed

theorem fifo_admission_witness:
  "\<exists>s. exec [Settle 0 (Inr 1), Finally 0, Settle 1 (Inl ''late''), Finally 1, Settle 2 (Inr 3), Finally 2]
          (process (constructor (Some 1)) [''A'', ''B'', ''C'']
             :: (string, nat, string) call) = Some s \<and>
        process_promise s = Fulfilled (results s) \<and>
        deferred s = [1, 2] \<and>
        map (\<lambda>i. [''A'', ''B'', ''C''] ! i) (started s) = [''A'', ''B'', ''C'']"
proof -
  let ?evs = "[Settle 0 (Inr 1), Finally 0, Settle 1 (Inl ''late''), Finally 1, Settle 2 (Inr 3), Finally 2]
                :: (nat, string) event list"
  have "\<exists>s. exec ?evs (process (constructor (Some 1)) [''A'', ''B'', ''C'']
             :: (string, nat, string) call) = Some s \<and> process_promise s = Fulfilled (results s)"
    by (simp add: runner_defs)
  then obtain s where
    e: "exec ?evs (process (constructor (Some 1)) [''A'', ''B'', ''C'']
             :: (string, nat, string) call) = Some s" and
    p: "process_promise s = Fulfilled (results s)"
    by blast
  from fifo_admission[where ?'t = string and ?'r = nat and ?'e = string, of "Some 1" "[''A'', ''B'', ''C'']"] e
  have "deferred s = [1, 2] \<and>
        (\<forall>rs. process_promise s = Fulfilled rs \<longrightarrow>
           map (\<lambda>i. [''A'', ''B'', ''C''] ! i) (started s) = [''A'', ''B'', ''C''])"
    by blast
  with e p show ?thesis by blast
qed

lemma length_remove1_Suc: "x \<in> set xs \<Longrightarrow> Suc (length (remove1 x xs)) = length xs"
  by (induction xs) auto

lemma weight_step: "step ev s = Some s' \<Longrightarrow> Suc (weight s') = weight s"
proof (cases ev)
  case (Settle i out)
  assume "step ev s = Some s'"
  with Settle step_Settle[of i out s s'] show ?thesis
    using length_remove1_Suc by (fastforce simp: weight_def)
next
  case (Finally i)
  assume "step ev s = Some s'"
  with Finally step_Finally[of i s s'] show ?thesis
    using length_remove1_Suc[of i "finishing s"] by (auto simp: weight_def split: list.splits)
qed

lemma weight_exec: "exec evs s = Some s' \<Longrightarrow> length evs + weight s' = weight s"
  by (induction evs arbitrary: s) (auto split: option.splits dest: weight_step)

lemma weight_process: "weight (process (constructor c) items) = 2 * length items"
  by (simp add: process_closed submitted_def weight_def)

lemma not_rejected:
  assumes "inv_tasks items s"
  shows "process_promise s \<noteq> Rejected e"
proof -
  have "p = Pending \<or> (\<exists>v. p = Fulfilled v)" if "p \<in> set (promises s)" for p
  proof -
    from that obtain i where "i < length (promises s)" "p = promises s ! i"
      by (auto simp: in_set_conv_nth)
    with assms show ?thesis by (auto simp: inv_tasks_def)
  qed
  then have "Promise_all (promises s) \<noteq> Rejected e"
    by (rule Promise_all_not_Rejected)
  then show ?thesis
    by (auto simp: process_promise_def split: promise.splits)
qed

lemma fulfilled_if_idle:
  assumes "inv_tasks items s" and "awaiting s = []" and "finishing s = []" and "queue (this s) = []"
  shows "process_promise s = Fulfilled (results s)"
proof -
  from assms have l: "live s = {}" by (simp add: live_def)
  have "\<exists>v. p = Fulfilled v" if "p \<in> set (promises s)" for p
  proof -
    from that obtain i where "i < length (promises s)" "p = promises s ! i"
      by (auto simp: in_set_conv_nth)
    with assms(1) l show ?thesis by (auto simp: inv_tasks_def)
  qed
  then obtain vs where "Promise_all (promises s) = Fulfilled vs"
    using Promise_all_all_Fulfilled by blast
  then show ?thesis by (simp add: process_promise_def)
qed

lemma not_stuck:
  assumes "inv_tasks items s" and "inv_order items s" and "1 \<le> concurrency (this s)"
    and "0 < weight s"
  shows "\<exists>ev s'. step ev s = Some s'"
proof (cases "awaiting s")
  case (Cons t ts)
  then obtain t' where "List.find (\<lambda>u. fst u = fst t) (awaiting s) = Some t'"
    by (cases "List.find (\<lambda>u. fst u = fst t) (awaiting s)") (auto simp: find_fst_None)
  then have "\<exists>s'. step (Settle (fst t) out) s = Some s'" for out :: "'c + 'b"
    by simp
  then show ?thesis by blast
next
  case Nil
  show ?thesis
  proof (cases "finishing s")
    case (Cons i fs)
    then have "\<exists>s'. step (Finally i) s = Some s'" by simp
    then show ?thesis by blast
  next
    case fin: Nil
    from assms(1) Nil fin have "activeCount (this s) = 0" by (simp add: inv_tasks_def)
    with assms(2,3) have "queue (this s) = []" by (auto simp: inv_order_def)
    with Nil fin assms(4) show ?thesis by (simp add: weight_def)
  qed
qed

lemma sim_step:
  assumes "step ev s = Some s1"
    and "\<forall>i. i \<noteq> j \<longrightarrow> js_nth r i = js_nth (results s) i"
  shows "\<exists>r1. step (resettle j out' ev) (s\<lparr>results := r\<rparr>) = Some (s1\<lparr>results := r1\<rparr>) \<and>
              (\<forall>i. i \<noteq> j \<longrightarrow> js_nth r1 i = js_nth (results s1) i)"
proof (cases ev)
  case (Settle i out)
  with assms(1) obtain t where f: "List.find (\<lambda>t. fst t = i) (awaiting s) = Some t"
    by (auto split: option.splits)
  with assms(1) Settle have s1: "s1 = fn_resume t out (s\<lparr>awaiting := remove1 t (awaiting s), finishing := finishing s @ [i]\<rparr>)"
    by simp
  from find_fst_Some[OF f] have ti: "fst t = i" by simp
  show ?thesis
  proof (cases "i = j")
    case True
    with Settle f s1 ti assms(2) show ?thesis
      by (intro exI[of _ "assign j (entry (snd t) out') r"])
         (simp add: resettle_def fn_resume_entry js_nth_assign)
  next
    case False
    with Settle f s1 ti assms(2) show ?thesis
      by (intro exI[of _ "assign i (entry (snd t) out) r"])
         (simp add: resettle_def fn_resume_entry js_nth_assign)
  qed
next
  case (Finally i)
  with assms show ?thesis
    by (intro exI[of _ r])
       (auto simp: resettle_def run_finally_def resolve_def shift_next_def release_def run_def
        split: if_splits list.splits)
qed

lemma sim_exec:
  assumes "exec evs s = Some s'"
    and "\<forall>i. i \<noteq> j \<longrightarrow> js_nth r i = js_nth (results s) i"
  shows "\<exists>r'. exec (map (resettle j out') evs) (s\<lparr>results := r\<rparr>) = Some (s'\<lparr>results := r'\<rparr>) \<and>
              (\<forall>i. i \<noteq> j \<longrightarrow> js_nth r' i = js_nth (results s') i)"
  using assms
proof (induction evs arbitrary: s r)
  case Nil
  then show ?case by auto
next
  case (Cons ev evs)
  from Cons.prems(1) obtain s1 where s1: "step ev s = Some s1" and ex: "exec evs s1 = Some s'"
    by (auto split: option.splits)
  from sim_step[OF s1 Cons.prems(2), of out'] obtain r1 where
    r1: "step (resettle j out' ev) (s\<lparr>results := r\<rparr>) = Some (s1\<lparr>results := r1\<rparr>)"
        "\<forall>i. i \<noteq> j \<longrightarrow> js_nth r1 i = js_nth (results s1) i"
    by blast
  from Cons.IH[OF ex r1(2)] r1(1) show ?case by simp
qed

lemma exec_append:
  "exec (xs @ ys) s = (case exec xs s of None \<Rightarrow> None | Some s1 \<Rightarrow> exec ys s1)"
  by (induction xs arbitrary: s) (auto split: option.splits)

lemma not_stuck_with:
  assumes "inv_tasks items s" and "inv_order items s" and "1 \<le> concurrency (this s)"
    and "0 < weight s"
  shows "\<exists>ev s'. step ev s = Some s' \<and> (\<forall>i out. ev = Settle i out \<longrightarrow> out = outs i)"
proof (cases "awaiting s")
  case (Cons t ts)
  then obtain t' where "List.find (\<lambda>u. fst u = fst t) (awaiting s) = Some t'"
    by (cases "List.find (\<lambda>u. fst u = fst t) (awaiting s)") (auto simp: find_fst_None)
  then have "\<exists>s'. step (Settle (fst t) (outs (fst t))) s = Some s'"
    by simp
  then show ?thesis by blast
next
  case Nil
  show ?thesis
  proof (cases "finishing s")
    case (Cons i fs)
    then have "\<exists>s'. step (Finally i) s = Some s'" by simp
    then show ?thesis by blast
  next
    case fin: Nil
    from assms(1) Nil fin have "activeCount (this s) = 0" by (simp add: inv_tasks_def)
    with assms(2,3) have "queue (this s) = []" by (auto simp: inv_order_def)
    with Nil fin assms(4) show ?thesis by (simp add: weight_def)
  qed
qed

lemma can_complete:
  assumes "inv_tasks items s" and "inv_order items s" and "1 \<le> concurrency (this s)"
  shows "\<exists>evs s'. exec evs s = Some s' \<and> weight s' = 0 \<and>
           (\<forall>i out. Settle i out \<in> set evs \<longrightarrow> out = outs i)"
  using assms
proof (induction "weight s" arbitrary: s)
  case 0
  then have "exec [] s = Some s \<and> weight s = 0 \<and>
           (\<forall>i out. Settle i out \<in> set [] \<longrightarrow> out = outs i)"
    by simp
  then show ?case by blast
next
  case (Suc n)
  from Suc.hyps(2) have "0 < weight s" by simp
  from not_stuck_with[OF Suc.prems this, of outs] obtain ev s1 where
    st: "step ev s = Some s1" and o: "\<forall>i out. ev = Settle i out \<longrightarrow> out = outs i"
    by blast
  from weight_step[OF st] Suc.hyps(2) have w: "n = weight s1" by simp
  have c: "1 \<le> concurrency (this s1)"
    using concurrency_step[OF st] Suc.prems(3) by simp
  from Suc.hyps(1)[OF w inv_tasks_step[OF Suc.prems(1) st] inv_order_step[OF Suc.prems(2) st] c]
  obtain evs s' where e: "exec evs s1 = Some s'" "weight s' = 0"
    "\<forall>i out. Settle i out \<in> set evs \<longrightarrow> out = outs i"
    by blast
  from st e o have "exec (ev # evs) s = Some s' \<and> weight s' = 0 \<and>
           (\<forall>i out. Settle i out \<in> set (ev # evs) \<longrightarrow> out = outs i)"
    by auto
  then show ?case by blast
qed

text \<open>
  C1. Order preservation. Take a new processor, any list of items, and any schedule
  \<open>evs\<close> the call can follow, that is, any order in which the operations settle and the
  continuations run. Whenever the promise returned by \<^verbatim>\<open>process\<close> is fulfilled, with
  \<open>rs\<close>, the array \<open>rs\<close> has the length of \<open>items\<close>, and for every index \<open>i\<close> the operation
  of task \<open>i\<close> has settled in the schedule, with some value \<open>out\<close>, and \<open>rs ! i\<close> holds
  \<open>items ! i\<close> together with that value: as \<^verbatim>\<open>result\<close> if the operation succeeded, as
  \<^verbatim>\<open>error\<close> if it threw or rejected. So the promise is fulfilled only after every item
  has produced its outcome. An operation settles at most once in a schedule, so that
  value is the one of every \<open>Settle i\<close> in it. And the call does return: with a limit of
  at least one a schedule has at most two steps for each item, before that number a
  step is always possible, with that number the promise is fulfilled with the results,
  and from every state that a schedule reaches, whatever values \<open>outs\<close> the remaining
  operations settle with, the schedule extends to one of that length, at whose end the
  promise is fulfilled.
\<close>

theorem process_results:
  fixes items :: "'t list" and s :: "('t, 'r, 'e) call"
  assumes "exec evs (process (constructor c) items) = Some s"
  shows
    "(\<forall>rs. process_promise s = Fulfilled rs \<longrightarrow>
        length rs = length items \<and>
        (\<forall>i<length items. \<exists>out. outcome_of evs i = Some out \<and>
            rs ! i = Some (case out of
                             Inr r \<Rightarrow> \<lparr>item = items ! i, result = Some r, error = None\<rparr>
                           | Inl e \<Rightarrow> \<lparr>item = items ! i, result = None, error = Some e\<rparr>))) \<and>
     (\<forall>i out. Settle i out \<in> set evs \<longrightarrow> outcome_of evs i = Some out) \<and>
     (1 \<le> concurrency (constructor c :: 't ParallelProcessor) \<longrightarrow>
        length evs \<le> 2 * length items \<and>
        (length evs < 2 * length items \<longrightarrow> (\<exists>ev s'. step ev s = Some s')) \<and>
        (length evs = 2 * length items \<longrightarrow> process_promise s = Fulfilled (results s)) \<and>
        (\<forall>outs. \<exists>evs' s'.
           exec (evs @ evs') (process (constructor c) items) = Some s' \<and>
           length (evs @ evs') = 2 * length items \<and>
           process_promise s' = Fulfilled (results s') \<and>
           (\<forall>i out. Settle i out \<in> set evs' \<longrightarrow> out = outs i)))"
proof -
  let ?s0 = "process (constructor c) items :: ('t, 'r, 'e) call"
  note r = reachable_inv[OF assms]
  have P1: "length rs = length items \<and>
        (\<forall>i<length items. \<exists>out. outcome_of evs i = Some out \<and>
            rs ! i = Some (case out of
                             Inr r \<Rightarrow> \<lparr>item = items ! i, result = Some r, error = None\<rparr>
                           | Inl e \<Rightarrow> \<lparr>item = items ! i, result = None, error = Some e\<rparr>))"
    if ful: "process_promise s = Fulfilled rs" for rs
  proof -
    from fulfilled_no_live[OF r(1) ful] have l: "live s = {}" and rs: "rs = results s"
      by simp_all
    from l have u: "unsettled s = {}"
      by (auto simp: live_def unsettled_def)
    have out: "\<exists>out. outcome_of evs i = Some out \<and> js_nth rs i = Some (entry (items ! i) out)"
      if "i < length items" for i
      using results_exec[OF assms inv_tasks_process, of i] that u
      by (simp add: unsettled_process rs)
    have ge: "length items \<le> length rs"
    proof (cases "length items")
      case 0
      then show ?thesis by simp
    next
      case (Suc n)
      with out[of n] have "js_nth rs n \<noteq> None" by auto
      then have "n < length rs" by (simp add: js_nth_def split: if_splits)
      with Suc show ?thesis by simp
    qed
    from r(1) rs have le: "length rs \<le> length items"
      by (simp add: inv_tasks_def)
    from ge le have len: "length rs = length items" by simp
    have "\<exists>out. outcome_of evs i = Some out \<and>
            rs ! i = Some (case out of
                             Inr r \<Rightarrow> \<lparr>item = items ! i, result = Some r, error = None\<rparr>
                           | Inl e \<Rightarrow> \<lparr>item = items ! i, result = None, error = Some e\<rparr>)"
      if "i < length items" for i
      using out[OF that] that len by (auto simp: js_nth_def entry_def)
    with len show ?thesis by blast
  qed
  have P2: "outcome_of evs i = Some out" if "Settle i out \<in> set evs" for i out
    using settle_in_schedule[OF assms inv_tasks_process that] by simp
  have w: "length evs + weight s = 2 * length items"
    using weight_exec[OF assms] by (simp add: weight_process)
  have P3: "length evs \<le> 2 * length items \<and>
        (length evs < 2 * length items \<longrightarrow> (\<exists>ev s'. step ev s = Some s')) \<and>
        (length evs = 2 * length items \<longrightarrow> process_promise s = Fulfilled (results s)) \<and>
        (\<forall>outs. \<exists>evs' s'.
           exec (evs @ evs') ?s0 = Some s' \<and>
           length (evs @ evs') = 2 * length items \<and>
           process_promise s' = Fulfilled (results s') \<and>
           (\<forall>i out. Settle i out \<in> set evs' \<longrightarrow> out = outs i))"
    if k: "1 \<le> concurrency (constructor c :: 't ParallelProcessor)"
  proof -
    from k r(3) have c: "1 \<le> concurrency (this s)" by (simp add: concurrency_constructor)
    have a: "length evs \<le> 2 * length items" using w by simp
    have b: "\<exists>ev s'. step ev s = Some s'" if "length evs < 2 * length items"
    proof -
      from that w have "0 < weight s" by simp
      from not_stuck[OF r(1,2) c this] show ?thesis .
    qed
    have d: "process_promise s = Fulfilled (results s)" if "length evs = 2 * length items"
    proof -
      from that w have "weight s = 0" by simp
      then have "awaiting s = []" "finishing s = []" "queue (this s) = []"
        by (simp_all add: weight_def)
      from fulfilled_if_idle[OF r(1) this] show ?thesis .
    qed
    have e: "\<exists>evs' s'.
           exec (evs @ evs') ?s0 = Some s' \<and>
           length (evs @ evs') = 2 * length items \<and>
           process_promise s' = Fulfilled (results s') \<and>
           (\<forall>i out. Settle i out \<in> set evs' \<longrightarrow> out = outs i)" for outs :: "nat \<Rightarrow> 'e + 'r"
    proof -
      from can_complete[OF r(1,2) c, of outs] obtain evs' s' where
        x: "exec evs' s = Some s'" "weight s' = 0"
           "\<forall>i out. Settle i out \<in> set evs' \<longrightarrow> out = outs i"
        by blast
      from x(1) assms have ex: "exec (evs @ evs') ?s0 = Some s'"
        by (simp add: exec_append)
      from weight_exec[OF ex] x(2) have len: "length (evs @ evs') = 2 * length items"
        by (simp add: weight_process)
      have inv': "inv_tasks items s'"
        using inv_tasks_exec[OF x(1) r(1)] .
      from x(2) have "awaiting s' = []" "finishing s' = []" "queue (this s') = []"
        by (simp_all add: weight_def)
      from fulfilled_if_idle[OF inv' this] have "process_promise s' = Fulfilled (results s')" .
      with ex len x(3) show ?thesis by blast
    qed
    from a b d e show ?thesis by blast
  qed
  from P1 P2 P3 show ?thesis by blast
qed

theorem process_results_witness:
  "1 \<le> concurrency (constructor (Some 2) :: string ParallelProcessor) \<and>
   (\<exists>s. exec [Settle 1 (Inl ''boom''), Finally 1, Settle 2 (Inr 30), Settle 0 (Inr 10), Finally 0, Finally 2]
          (process (constructor (Some 2)) [''a.jpg'', ''b.jpg'', ''c.jpg'']) = Some s \<and>
        process_promise s = Fulfilled
          [Some \<lparr>item = ''a.jpg'', result = Some (10::nat), error = None\<rparr>,
           Some \<lparr>item = ''b.jpg'', result = None, error = Some ''boom''\<rparr>,
           Some \<lparr>item = ''c.jpg'', result = Some 30, error = None\<rparr>] \<and>
        process_promise s = Fulfilled (results s)) \<and>
   length [Some \<lparr>item = ''a.jpg'', result = Some (10::nat), error = None\<rparr>,
           Some \<lparr>item = ''b.jpg'', result = None, error = Some ''boom''\<rparr>,
           Some \<lparr>item = ''c.jpg'', result = Some 30, error = None\<rparr>]
     = length [''a.jpg'', ''b.jpg'', ''c.jpg'']"
proof -
  let ?evs = "[Settle 1 (Inl ''boom''), Finally 1, Settle 2 (Inr 30), Settle 0 (Inr 10), Finally 0, Finally 2]
                :: (nat, string) event list"
  let ?items = "[''a.jpg'', ''b.jpg'', ''c.jpg'']"
  let ?rs = "[Some \<lparr>item = ''a.jpg'', result = Some (10::nat), error = None\<rparr>,
           Some \<lparr>item = ''b.jpg'', result = None, error = Some ''boom''\<rparr>,
           Some \<lparr>item = ''c.jpg'', result = Some 30, error = None\<rparr>]"
  have k: "1 \<le> concurrency (constructor (Some 2) :: string ParallelProcessor)"
    by (simp add: constructor_def)
  have l: "length ?evs = 2 * length ?items" by simp
  have h: "\<exists>s. exec ?evs (process (constructor (Some 2)) ?items) = Some s \<and>
        process_promise s = Fulfilled ?rs"
    by (simp add: runner_defs)
  then obtain s where a: "exec ?evs (process (constructor (Some 2)) ?items) = Some s"
    and b: "process_promise s = Fulfilled ?rs"
    by blast
  note t = process_results[OF a]
  from t b have 1: "length ?rs = length ?items"
    by blast
  from t k l have 2: "process_promise s = Fulfilled (results s)"
    by blast
  from a b 2 have "\<exists>s. exec ?evs (process (constructor (Some 2)) ?items) = Some s \<and>
        process_promise s = Fulfilled ?rs \<and> process_promise s = Fulfilled (results s)"
    by blast
  with k 1 show ?thesis by (intro conjI)
qed

text \<open>
  C3. Isolation of failures. In every state that a schedule reaches from a call on a
  new processor: the promise of \<^verbatim>\<open>process\<close> is not rejected; an operation of task \<open>j\<close>
  that threw or rejected with \<open>e\<close> has \<open>items ! j\<close> and \<open>e\<close> as the error in slot \<open>j\<close> of the
  results; and had the operation of \<open>j\<close> settled with any other value \<open>out'\<close>, a success
  for instance, the same schedule would lead to the same state but for the results,
  which agree in every slot other than \<open>j\<close>: the same tasks started in the same order,
  the same promises resolved, so the call resolves in the one case exactly when it does
  in the other. With a limit of at least one the call does resolve: a schedule has at
  most two steps for each item, before that number a step is always possible, and with
  it the promise is fulfilled with the results.
\<close>

theorem failure_isolated:
  fixes items :: "'t list" and s :: "('t, 'r, 'e) call"
  assumes "exec evs (process (constructor c) items) = Some s"
  shows
    "(\<forall>e. process_promise s \<noteq> Rejected e) \<and>
     (\<forall>j e. Settle j (Inl e) \<in> set evs \<longrightarrow>
        j < length items \<and>
        js_nth (results s) j = Some \<lparr>item = items ! j, result = None, error = Some e\<rparr>) \<and>
     (\<forall>j out'. \<exists>s'.
        exec (map (resettle j out') evs) (process (constructor c) items) = Some s' \<and>
        s' = s\<lparr>results := results s'\<rparr> \<and>
        (\<forall>i. i \<noteq> j \<longrightarrow> js_nth (results s') i = js_nth (results s) i)) \<and>
     (1 \<le> concurrency (constructor c :: 't ParallelProcessor) \<longrightarrow>
        length evs \<le> 2 * length items \<and>
        (length evs < 2 * length items \<longrightarrow> (\<exists>ev s'. step ev s = Some s')) \<and>
        (length evs = 2 * length items \<longrightarrow> process_promise s = Fulfilled (results s)))"
proof -
  let ?s0 = "process (constructor c) items :: ('t, 'r, 'e) call"
  note r = reachable_inv[OF assms]
  have P1: "\<forall>e. process_promise s \<noteq> Rejected e"
    using not_rejected[OF r(1)] by blast
  have P2: "j < length items \<and>
        js_nth (results s) j = Some \<lparr>item = items ! j, result = None, error = Some e\<rparr>"
    if "Settle j (Inl e) \<in> set evs" for j e
  proof -
    from settle_in_schedule[OF assms inv_tasks_process that]
    have j: "j \<in> unsettled ?s0" "j \<notin> unsettled s" "outcome_of evs j = Some (Inl e)"
      by simp_all
    from results_exec[OF assms inv_tasks_process, of j] j
    have "js_nth (results s) j = Some (entry (items ! j) (Inl e))" by auto
    with j(1) show ?thesis by (simp add: unsettled_process entry_def)
  qed
  have P3: "\<exists>s'. exec (map (resettle j out') evs) ?s0 = Some s' \<and>
        s' = s\<lparr>results := results s'\<rparr> \<and>
        (\<forall>i. i \<noteq> j \<longrightarrow> js_nth (results s') i = js_nth (results s) i)" for j out'
  proof -
    from sim_exec[OF assms, of j "results ?s0" out'] obtain r' where
      "exec (map (resettle j out') evs) ?s0 = Some (s\<lparr>results := r'\<rparr>)"
      "\<forall>i. i \<noteq> j \<longrightarrow> js_nth r' i = js_nth (results s) i"
      by auto
    then show ?thesis
      by (intro exI[of _ "s\<lparr>results := r'\<rparr>"]) simp
  qed
  have w: "length evs + weight s = 2 * length items"
    using weight_exec[OF assms] by (simp add: weight_process)
  have P4: "length evs \<le> 2 * length items \<and>
        (length evs < 2 * length items \<longrightarrow> (\<exists>ev s'. step ev s = Some s')) \<and>
        (length evs = 2 * length items \<longrightarrow> process_promise s = Fulfilled (results s))"
    if k: "1 \<le> concurrency (constructor c :: 't ParallelProcessor)"
  proof -
    from k r(3) have c: "1 \<le> concurrency (this s)" by (simp add: concurrency_constructor)
    have a: "length evs \<le> 2 * length items" using w by simp
    have b: "\<exists>ev s'. step ev s = Some s'" if "length evs < 2 * length items"
    proof -
      from that w have "0 < weight s" by simp
      from not_stuck[OF r(1,2) c this] show ?thesis .
    qed
    have d: "process_promise s = Fulfilled (results s)" if "length evs = 2 * length items"
    proof -
      from that w have "weight s = 0" by simp
      then have "awaiting s = []" "finishing s = []" "queue (this s) = []"
        by (simp_all add: weight_def)
      from fulfilled_if_idle[OF r(1) this] show ?thesis .
    qed
    from a b d show ?thesis by blast
  qed
  from P1 P2 P3 P4 show ?thesis by blast
qed

theorem failure_isolated_witness:
  "\<exists>s. exec [Settle 1 (Inl ''boom''), Finally 1, Settle 2 (Inr 30), Settle 0 (Inr 10), Finally 0, Finally 2]
          (process (constructor (Some 2)) [''a.jpg'', ''b.jpg'', ''c.jpg'']
             :: (string, nat, string) call) = Some s \<and>
        js_nth (results s) 1 = Some \<lparr>item = ''b.jpg'', result = None, error = Some ''boom''\<rparr> \<and>
        process_promise s = Fulfilled (results s)"
proof -
  let ?evs = "[Settle 1 (Inl ''boom''), Finally 1, Settle 2 (Inr 30), Settle 0 (Inr 10), Finally 0, Finally 2]
                :: (nat, string) event list"
  let ?items = "[''a.jpg'', ''b.jpg'', ''c.jpg'']"
  have "\<exists>s. exec ?evs (process (constructor (Some 2)) ?items :: (string, nat, string) call) = Some s"
    by (simp add: runner_defs)
  then obtain s where
    e: "exec ?evs (process (constructor (Some 2)) ?items :: (string, nat, string) call) = Some s"
    by blast
  have k: "1 \<le> concurrency (constructor (Some 2) :: string ParallelProcessor)"
    by (simp add: constructor_def)
  have m: "Settle 1 (Inl ''boom'') \<in> set ?evs" by simp
  have l: "length ?evs = 2 * length ?items" by simp
  note f = failure_isolated[OF e]
  from f m have "js_nth (results s) 1 = Some \<lparr>item = ?items ! 1, result = None, error = Some ''boom''\<rparr>"
    by blast
  moreover from f k l have "process_promise s = Fulfilled (results s)"
    by blast
  ultimately show ?thesis using e by (intro exI[of _ s]) simp
qed

text \<open>
  C5. A limit of zero or less. The constructor stores the value as it is. On a call with
  a list that is not empty no operation is started in the synchronous part: the test
  \<^verbatim>\<open>activeCount < concurrency\<close> fails for every item and every task is queued. No
  step is possible then, neither a completion nor a \<^verbatim>\<open>finally\<close> block, so the only
  schedule is the empty one: no operation ever starts and the promise stays pending.
\<close>

theorem nonpositive_concurrency_stalls:
  fixes items :: "'t list"
  assumes "k \<le> 0" and "items \<noteq> []"
  shows
    "concurrency (constructor (Some k) :: 't ParallelProcessor) = k \<and>
     started (process (constructor (Some k)) items :: ('t, 'r, 'e) call) = [] \<and>
     awaiting (process (constructor (Some k)) items :: ('t, 'r, 'e) call) = [] \<and>
     queue (this (process (constructor (Some k)) items :: ('t, 'r, 'e) call)) = enumerate 0 items \<and>
     process_promise (process (constructor (Some k)) items :: ('t, 'r, 'e) call) = Pending \<and>
     (\<forall>ev. step ev (process (constructor (Some k)) items :: ('t, 'r, 'e) call) = None) \<and>
     (\<forall>evs s. exec evs (process (constructor (Some k)) items :: ('t, 'r, 'e) call) = Some s \<longrightarrow>
        evs = [] \<and> started s = [] \<and> process_promise s = Pending)"
proof -
  let ?s0 = "process (constructor (Some k)) items :: ('t, 'r, 'e) call"
  from assms(1) have n: "nat k = 0" by simp
  have s0: "?s0 = \<lparr>this = \<lparr>concurrency = k, activeCount = 0, queue = enumerate 0 items\<rparr>,
      results = [], promises = replicate (length items) Pending,
      awaiting = [], finishing = [], started = [], deferred = [0..<length items]\<rparr>"
    by (simp add: process_closed submitted_def limit_def n)
  have pp: "process_promise ?s0 = Pending"
  proof -
    from assms(2) have "Pending \<in> set (replicate (length items) (Pending :: (unit, 'e) promise))"
      by simp
    then have "Promise_all (replicate (length items) (Pending :: (unit, 'e) promise)) = Pending"
      by (rule Promise_all_Pending) simp
    then show ?thesis by (simp add: s0 process_promise_def)
  qed
  have st: "step ev ?s0 = None" for ev
    by (cases ev) (simp_all add: s0)
  have ex: "evs = [] \<and> started s = [] \<and> process_promise s = Pending"
    if "exec evs ?s0 = Some s" for evs s
  proof (cases evs)
    case Nil
    with that have "s = ?s0" by simp
    with Nil pp show ?thesis by (simp add: s0)
  next
    case (Cons ev evs')
    with that st[of ev] show ?thesis by simp
  qed
  have c: "concurrency (constructor (Some k) :: 't ParallelProcessor) = k"
    by (simp add: constructor_def)
  have f: "started ?s0 = [] \<and> awaiting ?s0 = [] \<and> queue (this ?s0) = enumerate 0 items"
    by (simp add: s0)
  from c f pp st ex show ?thesis
    by blast
qed

theorem nonpositive_concurrency_stalls_witness:
  "(- 1 :: int) \<le> 0 \<and> [''a.jpg''] \<noteq> [] \<and>
   started (process (constructor (Some (- 1))) [''a.jpg''] :: (string, nat, string) call) = [] \<and>
   process_promise (process (constructor (Some (- 1))) [''a.jpg''] :: (string, nat, string) call) = Pending \<and>
   step (Settle 0 (Inr 5)) (process (constructor (Some (- 1))) [''a.jpg''] :: (string, nat, string) call) = None"
proof -
  have a: "(- 1 :: int) \<le> 0" and b: "[''a.jpg''] \<noteq> []" by simp_all
  from nonpositive_concurrency_stalls[OF a b, where ?'r = nat and ?'e = string] a b
  show ?thesis by blast
qed


section \<open>Properties of the orchestrator, the request builder and the adapter\<close>

lemma caption_first_nonempty:
  "caption (processImage_existingMetadata md) =
     (if truthy (Caption_Abstract md) then Caption_Abstract md
      else if truthy (Description md) then Description md
      else if truthy (ImageDescription md) then ImageDescription md
      else None)"
  by (simp add: processImage_existingMetadata_def or_else_def Let_def)

lemma caption_description_used:
  assumes "Caption_Abstract md = Some []" and "Description md = Some d" and "d \<noteq> []"
  shows "caption (processImage_existingMetadata md) = Some d"
  using assms by (simp add: caption_first_nonempty truthy_def)

text \<open>
  C7. The context caption is the first non-empty value among \<^verbatim>\<open>Caption-Abstract\<close>,
  \<^verbatim>\<open>Description\<close> and \<^verbatim>\<open>ImageDescription\<close> in the \<^verbatim>\<open>processImage\<close> that uses \<^verbatim>\<open>||\<close>
  (the two lemmas above). The \<^verbatim>\<open>processImage\<close> that uses \<^verbatim>\<open>??\<close> does otherwise: on
  metadata with an empty \<^verbatim>\<open>Caption-Abstract\<close> and the \<^verbatim>\<open>Description\<close> "A dog" it takes
  the empty string, which the following \<^verbatim>\<open>if\<close> drops, and no caption reaches the
  context, where the other variant passes "A dog".
\<close>

theorem nullish_caption_masks_description:
  "caption (processImage_existingMetadata_nullish
      \<lparr>Caption_Abstract = Some [], Description = Some ''A dog'', ImageDescription = None,
       Keywords = None, Subject = None\<rparr>) = None \<and>
   caption (processImage_existingMetadata
      \<lparr>Caption_Abstract = Some [], Description = Some ''A dog'', ImageDescription = None,
       Keywords = None, Subject = None\<rparr>) = Some ''A dog''"
  by (simp add: processImage_existingMetadata_nullish_def processImage_existingMetadata_def
      nullish_def or_else_def truthy_def truthy_tags_def)

text \<open>
  C8. The prompt sent to the model, for any tag function \<open>h\<close> and base prompt \<open>p\<close>. Without
  existing metadata, or with metadata whose caption is absent or empty and whose tag list
  is absent or empty, it is \<open>p\<close> exactly. With a non-empty caption or a non-empty tag list
  it is the template applied to \<open>p\<close> and the context: the line \<^verbatim>\<open>EXIF Caption: "..."\<close>
  when there is a caption, the line \<^verbatim>\<open>EXIF Keywords: ...\<close> with the tags joined by a
  comma and a space when there are tags, both lines joined by a newline when there are
  both. The template places the base prompt first, then the context, and ends with the
  instruction to include names from the metadata.
\<close>

theorem prompt_context:
  "enhancedPrompt h p None = p \<and>
   ((caption m = None \<or> caption m = Some []) \<and> (tags m = None \<or> tags m = Some []) \<longrightarrow>
      enhancedPrompt h p (Some m) = p) \<and>
   (\<forall>c. caption m = Some c \<and> c \<noteq> [] \<and> (tags m = None \<or> tags m = Some []) \<longrightarrow>
      enhancedPrompt h p (Some m) =
        h template [p, ''EXIF Caption: '' @ dquote @ c @ dquote]) \<and>
   (\<forall>ts. (caption m = None \<or> caption m = Some []) \<and> tags m = Some ts \<and> ts \<noteq> [] \<longrightarrow>
      enhancedPrompt h p (Some m) =
        h template [p, ''EXIF Keywords: '' @ js_join '', '' ts]) \<and>
   (\<forall>c ts. caption m = Some c \<and> c \<noteq> [] \<and> tags m = Some ts \<and> ts \<noteq> [] \<longrightarrow>
      enhancedPrompt h p (Some m) =
        h template [p, ''EXIF Caption: '' @ dquote @ c @ dquote @ newline @
                       ''EXIF Keywords: '' @ js_join '', '' ts]) \<and>
   length template = 3 \<and>
   template ! 1 = '' Use the image metadata to inform your caption.'' @ newline @ newline @
      ''            Image metadata: '' @ dquote @ dquote @ dquote @ newline @ ''            '' \<and>
   template ! 2 = newline @ ''            '' @ dquote @ dquote @ dquote @ newline @ newline @
      ''            Try to include any names from the metadata in your caption, but be careful not to infer too much.'' @
      newline @ ''          ''"
  by (auto simp: enhancedPrompt_def contextParts_def truthy_def template_def Let_def)

theorem prompt_context_witness:
  "enhancedPrompt interpolate ''Describe.'' (Some \<lparr>caption = Some [], tags = Some []\<rparr>) = ''Describe.'' \<and>
   enhancedPrompt interpolate ''Describe.'' (Some \<lparr>caption = Some ''Rex'', tags = Some [''dog'', ''park'']\<rparr>) =
     interpolate template [''Describe.'', ''EXIF Caption: '' @ dquote @ ''Rex'' @ dquote @ newline @
                                         ''EXIF Keywords: dog, park'']"
proof -
  have a: "(caption \<lparr>caption = Some [], tags = Some []\<rparr> = None \<or>
            caption \<lparr>caption = Some [], tags = Some []\<rparr> = Some []) \<and>
           (tags \<lparr>caption = Some [], tags = Some []\<rparr> = None \<or>
            tags \<lparr>caption = Some [], tags = Some []\<rparr> = Some [])"
    by simp
  have b: "caption \<lparr>caption = Some ''Rex'', tags = Some [''dog'', ''park'']\<rparr> = Some ''Rex'' \<and> ''Rex'' \<noteq> [] \<and>
           tags \<lparr>caption = Some ''Rex'', tags = Some [''dog'', ''park'']\<rparr> = Some [''dog'', ''park''] \<and>
           [''dog'', ''park''] \<noteq> []"
    by simp
  from prompt_context[of interpolate "''Describe.''" "\<lparr>caption = Some [], tags = Some []\<rparr>"] a
  have 1: "enhancedPrompt interpolate ''Describe.'' (Some \<lparr>caption = Some [], tags = Some []\<rparr>) = ''Describe.''"
    by blast
  from prompt_context[of interpolate "''Describe.''" "\<lparr>caption = Some ''Rex'', tags = Some [''dog'', ''park'']\<rparr>"] b
  have 2: "enhancedPrompt interpolate ''Describe.'' (Some \<lparr>caption = Some ''Rex'', tags = Some [''dog'', ''park'']\<rparr>) =
     interpolate template [''Describe.'', ''EXIF Caption: '' @ dquote @ ''Rex'' @ dquote @ newline @
                                         ''EXIF Keywords: '' @ js_join '', '' [''dog'', ''park'']]"
    by blast
  from 1 2 show ?thesis by simp
qed

text \<open>
  C9. \<^verbatim>\<open>readImageMetadata\<close> never raises. For every path and every behaviour of the
  subprocess, of \<^verbatim>\<open>JSON.parse\<close> and of the schema, the result is a value and not a
  throw; it is the empty mapping when the subprocess fails, when its output does not
  parse, when the parsed value is \<^verbatim>\<open>null\<close> (reading its first element throws), and
  when the schema refuses the first element; it is the validated metadata when every
  stage succeeds. The same holds for the variant that returns the parsed value
  unvalidated.
\<close>

theorem readImageMetadata_never_raises:
  "(\<exists>m. readImageMetadata ex jp sp path = Inr m) \<and>
   (\<forall>e. ex exiftool [''-j'', path] = Inl e \<longrightarrow>
      readImageMetadata ex jp sp path = Inr empty_metadata) \<and>
   (\<forall>out e. ex exiftool [''-j'', path] = Inr out \<and> jp out = Inl e \<longrightarrow>
      readImageMetadata ex jp sp path = Inr empty_metadata) \<and>
   (\<forall>out. ex exiftool [''-j'', path] = Inr out \<and> jp out = Inr JNull \<longrightarrow>
      readImageMetadata ex jp sp path = Inr empty_metadata) \<and>
   (\<forall>out raw first e. ex exiftool [''-j'', path] = Inr out \<and> jp out = Inr raw \<and>
      index0 raw = Inr first \<and>
      sp (case first of None \<Rightarrow> JObject [] | Some JNull \<Rightarrow> JObject [] | Some v \<Rightarrow> v) = Inl e \<longrightarrow>
      readImageMetadata ex jp sp path = Inr empty_metadata) \<and>
   (\<forall>out raw first m. ex exiftool [''-j'', path] = Inr out \<and> jp out = Inr raw \<and>
      index0 raw = Inr first \<and>
      sp (case first of None \<Rightarrow> JObject [] | Some JNull \<Rightarrow> JObject [] | Some v \<Rightarrow> v) = Inr m \<longrightarrow>
      readImageMetadata ex jp sp path = Inr m) \<and>
   (\<exists>v. readImageMetadata_any ex jp path = Inr v) \<and>
   (\<forall>e. ex exiftool [''-j'', path] = Inl e \<longrightarrow>
      readImageMetadata_any ex jp path = Inr (JObject [])) \<and>
   (\<forall>out e. ex exiftool [''-j'', path] = Inr out \<and> jp out = Inl e \<longrightarrow>
      readImageMetadata_any ex jp path = Inr (JObject [])) \<and>
   (\<forall>out. ex exiftool [''-j'', path] = Inr out \<and> jp out = Inr JNull \<longrightarrow>
      readImageMetadata_any ex jp path = Inr (JObject []))"
proof -
  have 1: "\<exists>m. readImageMetadata ex jp sp path = Inr m"
    by (simp add: readImageMetadata_def split: sum.split)
  have 2: "\<exists>v. readImageMetadata_any ex jp path = Inr v"
    by (simp add: readImageMetadata_any_def split: sum.split)
  have 3: "nullish first (Some (JObject [])) = (case first of None \<Rightarrow> Some (JObject []) | Some v \<Rightarrow> Some v)"
    for first
    by (simp add: nullish_def split: option.split)
  have 4: "index0 JNull = Inl (ErrorObj ''Cannot read properties of null'' None)"
    by (simp add: index0_def)
  from 1 2 show ?thesis
    by (auto simp: readImageMetadata_def readImageMetadata_any_def bind_result_def 3 4
        split: option.splits json.splits)
qed

theorem readImageMetadata_never_raises_witness:
  "readImageMetadata (\<lambda>file args. Inl (ErrorObj ''spawn ENOENT'' None)) (\<lambda>out. Inr JNull)
      (\<lambda>v. Inr empty_metadata) ''a.jpg'' = Inr empty_metadata \<and>
   readImageMetadata_any (\<lambda>file args. Inr ''null'') (\<lambda>out. Inr JNull) ''a.jpg'' = Inr (JObject [])"
proof -
  let ?ex1 = "\<lambda>(file :: string) (args :: string list). Inl (ErrorObj ''spawn ENOENT'' None) :: thrown + string"
  let ?jp1 = "\<lambda>out :: string. Inr JNull :: thrown + json"
  let ?sp1 = "\<lambda>v :: json. Inr empty_metadata :: thrown + ExifMetadata"
  have a: "?ex1 exiftool [''-j'', ''a.jpg''] = Inl (ErrorObj ''spawn ENOENT'' None)"
    by (rule refl)
  from readImageMetadata_never_raises[of ?ex1 ?jp1 ?sp1 "''a.jpg''"]
  have "\<forall>e. ?ex1 exiftool [''-j'', ''a.jpg''] = Inl e \<longrightarrow>
      readImageMetadata ?ex1 ?jp1 ?sp1 ''a.jpg'' = Inr empty_metadata"
    by (elim conjE)
  from this[rule_format, OF a]
  have 1: "readImageMetadata ?ex1 ?jp1 ?sp1 ''a.jpg'' = Inr empty_metadata" .
  let ?ex3 = "\<lambda>(file :: string) (args :: string list). Inr ''null'' :: thrown + string"
  have c: "?ex3 exiftool [''-j'', ''a.jpg''] = Inr ''null'' \<and> ?jp1 ''null'' = Inr JNull"
    by (intro conjI refl)
  from readImageMetadata_never_raises[of ?ex3 ?jp1 ?sp1 "''a.jpg''"]
  have "\<forall>out. ?ex3 exiftool [''-j'', ''a.jpg''] = Inr out \<and> ?jp1 out = Inr JNull \<longrightarrow>
      readImageMetadata_any ?ex3 ?jp1 ''a.jpg'' = Inr (JObject [])"
    by (elim conjE)
  from this[rule_format, OF c]
  have 3: "readImageMetadata_any ?ex3 ?jp1 ''a.jpg'' = Inr (JObject [])" .
  from 1 3 show ?thesis by (rule conjI)
qed

lemma writeCaption_error_message:
  "\<exists>msg. writeCaption_error e = ErrorObj (''Failed to write caption to image: '' @ msg) None"
  unfolding writeCaption_error_def Let_def by blast

lemma writeCaption_error_details:
  "se \<noteq> [] \<Longrightarrow> writeCaption_error (ErrorObj m (Some se)) =
     ErrorObj (''Failed to write caption to image: '' @ m @ newline @ ''Details: '' @ se) None"
  by (simp add: writeCaption_error_def nullish_def)

text \<open>
  C10. \<^verbatim>\<open>writeCaption\<close> calls the metadata tool once, with these arguments in this
  order: the overwrite flag; the three assignments to \<^verbatim>\<open>Caption-Abstract\<close>,
  \<^verbatim>\<open>Description\<close> and \<^verbatim>\<open>ImageDescription\<close>, each of the same caption text; the source
  path as it was given; \<^verbatim>\<open>-o\<close> and the output path, joined from the directory of the
  source, \<^verbatim>\<open>..\<close>, \<^verbatim>\<open>output\<close> and the base name of the source. It returns normally
  when the call succeeds. When the call fails it throws an \<^verbatim>\<open>Error\<close> whose message
  starts with \<^verbatim>\<open>Failed to write caption to image: \<close> and carries the message of the
  failure and, when there is one, the text of its \<^verbatim>\<open>stderr\<close>.
\<close>

theorem writeCaption_invocation:
  "writeCaption_args imagePath cap (outputPath pj pd pb imagePath) =
     [''-overwrite_original'', ''-Caption-Abstract='' @ cap, ''-Description='' @ cap,
      ''-ImageDescription='' @ cap, imagePath, ''-o'',
      pj [pd imagePath, ''..'', ''output'', pb imagePath]] \<and>
   writeCaption ex pj pd pb imagePath cap =
     (case ex ''/opt/homebrew/bin/exiftool''
             (writeCaption_args imagePath cap (outputPath pj pd pb imagePath)) of
        Inr v \<Rightarrow> Inr ()
      | Inl e \<Rightarrow> Inl (writeCaption_error e)) \<and>
   (\<forall>v. ex ''/opt/homebrew/bin/exiftool''
           (writeCaption_args imagePath cap (outputPath pj pd pb imagePath)) = Inr v \<longrightarrow>
      writeCaption ex pj pd pb imagePath cap = Inr ()) \<and>
   (\<forall>e. ex ''/opt/homebrew/bin/exiftool''
           (writeCaption_args imagePath cap (outputPath pj pd pb imagePath)) = Inl e \<longrightarrow>
      (\<exists>msg. writeCaption ex pj pd pb imagePath cap =
         Inl (ErrorObj (''Failed to write caption to image: '' @ msg) None))) \<and>
   (\<forall>m se. ex ''/opt/homebrew/bin/exiftool''
           (writeCaption_args imagePath cap (outputPath pj pd pb imagePath))
             = Inl (ErrorObj m (Some se)) \<and> se \<noteq> [] \<longrightarrow>
      writeCaption ex pj pd pb imagePath cap =
         Inl (ErrorObj (''Failed to write caption to image: '' @ m @ newline @ ''Details: '' @ se) None))"
proof -
  let ?args = "writeCaption_args imagePath cap (outputPath pj pd pb imagePath)"
  have 1: "?args = [''-overwrite_original'', ''-Caption-Abstract='' @ cap, ''-Description='' @ cap,
      ''-ImageDescription='' @ cap, imagePath, ''-o'',
      pj [pd imagePath, ''..'', ''output'', pb imagePath]]"
    by (simp only: writeCaption_args_def outputPath_def)
  have 2: "writeCaption ex pj pd pb imagePath cap =
     (case ex ''/opt/homebrew/bin/exiftool'' ?args of
        Inr v \<Rightarrow> Inr ()
      | Inl e \<Rightarrow> Inl (writeCaption_error e))"
    by (simp only: writeCaption_def exiftool_def)
  have 3: "writeCaption ex pj pd pb imagePath cap = Inr ()"
    if "ex ''/opt/homebrew/bin/exiftool'' ?args = Inr v" for v
    by (simp only: 2 that sum.case)
  have 4: "\<exists>msg. writeCaption ex pj pd pb imagePath cap =
         Inl (ErrorObj (''Failed to write caption to image: '' @ msg) None)"
    if "ex ''/opt/homebrew/bin/exiftool'' ?args = Inl e" for e
    using writeCaption_error_message[of e] by (simp only: 2 that sum.case) blast
  have 5: "writeCaption ex pj pd pb imagePath cap =
         Inl (ErrorObj (''Failed to write caption to image: '' @ m @ newline @ ''Details: '' @ se) None)"
    if "ex ''/opt/homebrew/bin/exiftool'' ?args = Inl (ErrorObj m (Some se)) \<and> se \<noteq> []" for m se
  proof -
    from that have a: "ex ''/opt/homebrew/bin/exiftool'' ?args = Inl (ErrorObj m (Some se))"
      and b: "se \<noteq> []" by blast+
    show ?thesis by (simp only: 2 a sum.case writeCaption_error_details[OF b])
  qed
  from 1 2 3 4 5 show ?thesis by blast
qed

theorem writeCaption_invocation_witness:
  "writeCaption (\<lambda>file args. Inl (ErrorObj ''Command failed'' (Some ''File not found'')) :: thrown + unit)
      (js_join ''/'') (\<lambda>p. ''/photos/input'') (\<lambda>p. ''a.jpg'') ''/photos/input/a.jpg'' ''A dog''
     = Inl (ErrorObj (''Failed to write caption to image: '' @ ''Command failed'' @ newline @
                      ''Details: '' @ ''File not found'') None) \<and>
   writeCaption_args ''/photos/input/a.jpg'' ''A dog''
      (outputPath (js_join ''/'') (\<lambda>p. ''/photos/input'') (\<lambda>p. ''a.jpg'') ''/photos/input/a.jpg'')
     = [''-overwrite_original'', ''-Caption-Abstract='' @ ''A dog'', ''-Description='' @ ''A dog'',
        ''-ImageDescription='' @ ''A dog'', ''/photos/input/a.jpg'', ''-o'',
        js_join ''/'' [''/photos/input'', ''..'', ''output'', ''a.jpg'']]"
proof -
  let ?ex = "\<lambda>(file :: string) (args :: string list).
               Inl (ErrorObj ''Command failed'' (Some ''File not found'')) :: thrown + unit"
  let ?pd = "\<lambda>p :: string. ''/photos/input''"
  let ?pb = "\<lambda>p :: string. ''a.jpg''"
  note w = writeCaption_invocation[of "''/photos/input/a.jpg''" "''A dog''" "js_join ''/''" ?pd ?pb ?ex]
  have a: "?ex ''/opt/homebrew/bin/exiftool''
             (writeCaption_args ''/photos/input/a.jpg'' ''A dog''
                (outputPath (js_join ''/'') ?pd ?pb ''/photos/input/a.jpg''))
           = Inl (ErrorObj ''Command failed'' (Some ''File not found'')) \<and> ''File not found'' \<noteq> []"
    by simp
  from w have 5: "\<forall>m se. ?ex ''/opt/homebrew/bin/exiftool''
           (writeCaption_args ''/photos/input/a.jpg'' ''A dog''
                (outputPath (js_join ''/'') ?pd ?pb ''/photos/input/a.jpg''))
             = Inl (ErrorObj m (Some se)) \<and> se \<noteq> [] \<longrightarrow>
      writeCaption ?ex (js_join ''/'') ?pd ?pb ''/photos/input/a.jpg'' ''A dog'' =
         Inl (ErrorObj (''Failed to write caption to image: '' @ m @ newline @ ''Details: '' @ se) None)"
    by (elim conjE)
  from 5[rule_format, OF a] have 1: "writeCaption ?ex (js_join ''/'') ?pd ?pb ''/photos/input/a.jpg'' ''A dog''
     = Inl (ErrorObj (''Failed to write caption to image: '' @ ''Command failed'' @ newline @
                      ''Details: '' @ ''File not found'') None)" .
  from w have 2: "writeCaption_args ''/photos/input/a.jpg'' ''A dog''
      (outputPath (js_join ''/'') ?pd ?pb ''/photos/input/a.jpg'')
     = [''-overwrite_original'', ''-Caption-Abstract='' @ ''A dog'', ''-Description='' @ ''A dog'',
        ''-ImageDescription='' @ ''A dog'', ''/photos/input/a.jpg'', ''-o'',
        js_join ''/'' [''/photos/input'', ''..'', ''output'', ''a.jpg'']]"
    by (elim conjE)
  from 1 2 show ?thesis by (rule conjI)
qed

end
